theory Spec2Isabelle
  imports Complex_Main "HOL-Library.Product_Lexorder" "HOL-Library.Multiset"
begin

section \<open>Data model of \<open>instrumentor.py\<close>\<close>

text \<open>
  Timestamps and durations are Python floats (IEEE-754 doubles) produced by
  \<open>time.time()\<close>. A finite double is the rational it denotes; the one non-finite
  value the module uses, \<open>float('inf')\<close> (the initial \<open>min_time\<close>), is the extra
  constructor of \<open>pynum\<close>. The clock is not part of the state: every call of
  \<open>time.time()\<close> appears as an explicit argument of the function that makes it, in
  the order the source reads it.

  Differences and sums of clock readings are taken exactly: the readings of
  \<open>time.time()\<close> are multiples of \<open>2^-22\<close> below \<open>2^31\<close>, and on such doubles
  subtraction and addition do not round. Division, multiplication by 100 and
  \<open>round()\<close> do round, and go through \<open>to_double\<close> below.
\<close>

datatype pynum = Num rat | Inf

datatype error = ValueError | KeyError | ZeroDivisionError

type_synonym metadata = "(string \<times> string) list"

record active_operation =
  act_category :: string
  act_operation_name :: string
  act_start_time :: rat
  act_metadata :: metadata

record operation_record =
  op_category :: string
  op_operation_name :: string
  op_start_time :: rat
  op_end_time :: rat
  op_duration :: rat
  op_relative_start :: rat
  op_relative_end :: rat
  op_metadata :: metadata

record aggregate =
  total_time :: rat
  count_n :: nat
  min_time :: pynum
  max_time :: rat

record instrumentor =
  operations :: "operation_record list"
  active_operations :: "string \<rightharpoonup> active_operation"
  aggregates :: "string \<rightharpoonup> aggregate"
  start_time :: "rat option"

text \<open>The class attribute \<open>CATEGORIES\<close>, in the order of the set literal.\<close>

definition CATEGORIES_list :: "string list" where
  "CATEGORIES_list =
     [''database_calls'', ''llm_calls'', ''schema_operations'',
      ''vector_db_operations'', ''embedding_operations'', ''minhash_lsh_operations'']"

definition CATEGORIES :: "string set" where
  "CATEGORIES = set CATEGORIES_list"

subsection \<open>Python built-ins used by the module\<close>

text \<open>
  Rounding to the nearest integer, a tie going to the even one. It is applied
  to exact values only: to decide the last bit of a double, and the last
  decimal of \<open>round()\<close>.
\<close>

definition round_half_even :: "rat \<Rightarrow> int" where
  "round_half_even y =
     (let f = \<lfloor>y\<rfloor>; d = y - of_int f
      in if d < 1 / 2 then f
         else if 1 / 2 < d then f + 1
         else if even f then f else f + 1)"

text \<open>
  The double nearest to a rational, a tie going to the even significand:
  53 significant bits, and below \<open>2^-1022\<close> the fixed spacing \<open>2^-1074\<close> of the
  subnormal range. \<open>ilog2 x\<close> is the exponent \<open>k\<close> with \<open>2^k \<le> x < 2^(k+1)\<close>, found
  from the bit lengths of numerator and denominator. Overflow to \<open>inf\<close> (beyond
  \<open>1.8e308\<close>) is not modelled.
\<close>

fun bitlength :: "nat \<Rightarrow> nat" where
  "bitlength n = (if n = 0 then 0 else Suc (bitlength (n div 2)))"

declare bitlength.simps [simp del]

definition pow2 :: "int \<Rightarrow> rat" where
  "pow2 k = (if 0 \<le> k then 2 ^ nat k else 1 / 2 ^ nat (- k))"

definition ilog2 :: "rat \<Rightarrow> int" where
  "ilog2 x =
     (let k = int (bitlength (nat (fst (quotient_of x))))
              - int (bitlength (nat (snd (quotient_of x))))
      in if pow2 k \<le> x then k else k - 1)"

definition to_double :: "rat \<Rightarrow> rat" where
  "to_double x =
     (if x = 0 then 0
      else let e = max (ilog2 \<bar>x\<bar> - 52) (- 1074)
           in of_int (round_half_even (x / pow2 e)) * pow2 e)"

text \<open>
  \<open>round(x, n)\<close> as CPython computes it: the exact value of the double \<open>x\<close> is
  rounded to \<open>n\<close> decimals, half to even, and the decimal is converted back to
  the nearest double.
\<close>

definition py_round :: "rat \<Rightarrow> nat \<Rightarrow> rat" where
  "py_round x n = to_double (of_int (round_half_even (x * 10 ^ n)) / 10 ^ n)"

text \<open>\<open>round(inf, n)\<close> is \<open>inf\<close>.\<close>

fun round_num :: "pynum \<Rightarrow> nat \<Rightarrow> pynum" where
  "round_num (Num x) n = Num (py_round x n)"
| "round_num Inf n = Inf"

text \<open>\<open>min(m, d)\<close> where \<open>m\<close> may be \<open>inf\<close> and \<open>d\<close> is finite.\<close>

fun min_num :: "pynum \<Rightarrow> rat \<Rightarrow> pynum" where
  "min_num (Num m) d = Num (min m d)"
| "min_num Inf d = Num d"

text \<open>
  Float division raises \<open>ZeroDivisionError\<close> on a zero divisor; quotient and
  product are rounded to the nearest double.
\<close>

definition py_div :: "rat \<Rightarrow> rat \<Rightarrow> error + rat" where
  "py_div a b = (if b = 0 then Inl ZeroDivisionError else Inr (to_double (a / b)))"

definition py_mul :: "rat \<Rightarrow> rat \<Rightarrow> rat" where
  "py_mul a b = to_double (a * b)"

definition bind_err :: "error + 'a \<Rightarrow> ('a \<Rightarrow> error + 'b) \<Rightarrow> error + 'b" where
  "bind_err r f = (case r of Inl e \<Rightarrow> Inl e | Inr v \<Rightarrow> f v)"

section \<open>Session state store\<close>

definition initial_aggregates :: "string \<rightharpoonup> aggregate" where
  "initial_aggregates =
     (\<lambda>category. if category \<in> CATEGORIES
        then Some \<lparr>total_time = 0, count_n = 0, min_time = Inf, max_time = 0\<rparr>
        else None)"

definition reset :: "instrumentor \<Rightarrow> instrumentor" where
  "reset s = \<lparr>operations = [], active_operations = Map.empty,
              aggregates = initial_aggregates, start_time = None\<rparr>"

text \<open>The state \<open>__init__\<close> builds on first construction.\<close>

definition init :: instrumentor where
  "init = \<lparr>operations = [], active_operations = Map.empty,
           aggregates = initial_aggregates, start_time = None\<rparr>"

definition start_session :: "rat \<Rightarrow> instrumentor \<Rightarrow> instrumentor" where
  "start_session now s = (reset s)\<lparr>start_time := Some now\<rparr>"

text \<open>
  The operation id is the f-string \<open>{category}_{operation_name}_{time.time()}\<close>;
  \<open>fmt\<close> is Python's formatting of a float, a parameter of the model.
\<close>

definition operation_id_of :: "(rat \<Rightarrow> string) \<Rightarrow> string \<Rightarrow> string \<Rightarrow> rat \<Rightarrow> string" where
  "operation_id_of fmt category operation_name t =
     category @ ''_'' @ operation_name @ ''_'' @ fmt t"

text \<open>
  \<open>start_operation\<close> reads the clock up to three times: \<open>t_session\<close> inside
  \<open>start_session\<close> (only when no session is started), \<open>t_id\<close> for the id and
  \<open>t_start\<close> for the record. \<open>Inl ValueError\<close> is the \<open>raise\<close>.
\<close>

definition start_operation ::
  "(rat \<Rightarrow> string) \<Rightarrow> rat \<Rightarrow> rat \<Rightarrow> rat \<Rightarrow> string \<Rightarrow> string \<Rightarrow> metadata option
     \<Rightarrow> instrumentor \<Rightarrow> error + (string \<times> instrumentor)" where
  "start_operation fmt t_session t_id t_start category operation_name metadata s =
     (if category \<notin> CATEGORIES then Inl ValueError
      else
        let s1 = (if start_time s = None then start_session t_session s else s);
            operation_id = operation_id_of fmt category operation_name t_id;
            entry = \<lparr>act_category = category, act_operation_name = operation_name,
                     act_start_time = t_start,
                     act_metadata = (case metadata of None \<Rightarrow> [] | Some m \<Rightarrow> m)\<rparr>
        in Inr (operation_id,
                s1\<lparr>active_operations := (active_operations s1)(operation_id \<mapsto> entry)\<rparr>))"

text \<open>
  \<open>end_operation\<close> returns the exception it raises, if any, beside the state it
  leaves: Python does not undo the \<open>pop\<close> and the \<open>append\<close> when the later lookup
  \<open>self.aggregates[category]\<close> fails.
\<close>

definition end_operation :: "rat \<Rightarrow> string \<Rightarrow> instrumentor \<Rightarrow> error option \<times> instrumentor" where
  "end_operation end_time operation_id s =
     (case active_operations s operation_id of
        None \<Rightarrow> (None, s)
      | Some op_info \<Rightarrow>
          let start = act_start_time op_info;
              duration = end_time - start;
              category = act_category op_info;
              operation_rec =
                \<lparr>op_category = category,
                 op_operation_name = act_operation_name op_info,
                 op_start_time = start,
                 op_end_time = end_time,
                 op_duration = duration,
                 op_relative_start =
                   (case start_time s of
                      None \<Rightarrow> 0
                    | Some t0 \<Rightarrow> if t0 \<noteq> 0 then start - t0 else 0),
                 op_relative_end =
                   (case start_time s of
                      None \<Rightarrow> duration
                    | Some t0 \<Rightarrow> if t0 \<noteq> 0 then end_time - t0 else duration),
                 op_metadata = act_metadata op_info\<rparr>;
              s1 = s\<lparr>active_operations := (active_operations s)(operation_id := None),
                     operations := operations s @ [operation_rec]\<rparr>
          in (case aggregates s1 category of
                None \<Rightarrow> (Some KeyError, s1)
              | Some agg \<Rightarrow>
                  (None,
                   s1\<lparr>aggregates := (aggregates s1)(category \<mapsto>
                         \<lparr>total_time = total_time agg + duration,
                          count_n = count_n agg + 1,
                          min_time = min_num (min_time agg) duration,
                          max_time = max (max_time agg) duration\<rparr>)\<rparr>)))"

section \<open>Coverage and summary engine\<close>

text \<open>The body of the sweep loop: \<open>merged[-1]\<close> is \<open>last merged\<close>.\<close>

definition merge_step :: "(rat \<times> rat) list \<Rightarrow> rat \<times> rat \<Rightarrow> (rat \<times> rat) list" where
  "merge_step merged iv =
     (if merged \<noteq> [] \<and> fst iv \<le> snd (last merged)
      then butlast merged @ [(fst (last merged), max (snd (last merged)) (snd iv))]
      else merged @ [iv])"

definition category_intervals :: "instrumentor \<Rightarrow> string \<Rightarrow> (rat \<times> rat) list" where
  "category_intervals s category =
     map (\<lambda>r. (op_relative_start r, op_relative_end r))
       (filter (\<lambda>r. op_category r = category) (operations s))"

text \<open>\<open>intervals.sort()\<close> orders the tuples lexicographically.\<close>

definition total_coverage :: "(rat \<times> rat) list \<Rightarrow> rat" where
  "total_coverage intervals =
     sum_list (map (\<lambda>(start, end). end - start) (foldl merge_step [] (sort intervals)))"

definition calculate_timeline_coverage :: "instrumentor \<Rightarrow> string \<Rightarrow> rat \<Rightarrow> error + rat" where
  "calculate_timeline_coverage s category session_duration =
     (if session_duration \<le> 0 then Inr 0
      else if filter (\<lambda>r. op_category r = category) (operations s) = [] then Inr 0
      else bind_err (py_div (total_coverage (category_intervals s category)) session_duration)
             (\<lambda>q. Inr (py_round (py_mul q 100) 2)))"

text \<open>
  One category's statistics object: a dict, kept as the list of its items in
  insertion order. The integer and float zeros of the source are the same
  \<open>Num 0\<close>.
\<close>

type_synonym stats = "(string \<times> pynum) list"

definition category_stats :: "instrumentor \<Rightarrow> rat \<Rightarrow> string \<Rightarrow> error + stats" where
  "category_stats s session_duration category =
     (case aggregates s category of
        None \<Rightarrow> Inl KeyError
      | Some agg \<Rightarrow>
          if count_n agg > 0 then
            bind_err
              (if session_duration > 0
               then bind_err (py_div (total_time agg) session_duration)
                      (\<lambda>q. Inr (py_round (py_mul q 100) 2))
               else Inr 0)
              (\<lambda>cumulative_percentage.
            bind_err (calculate_timeline_coverage s category session_duration)
              (\<lambda>timeline_percentage.
            bind_err (py_div (total_time agg) (of_nat (count_n agg)))
              (\<lambda>average.
            Inr [(''total_time'', Num (py_round (total_time agg) 3)),
                 (''count'', Num (of_nat (count_n agg))),
                 (''average_time'', Num (py_round average 3)),
                 (''min_time'', round_num (min_time agg) 3),
                 (''max_time'', Num (py_round (max_time agg) 3)),
                 (''cumulative_percentage'', Num cumulative_percentage),
                 (''timeline_percentage'', Num timeline_percentage)])))
          else
            Inr [(''total_time'', Num 0),
                 (''count'', Num 0),
                 (''average_time'', Num 0),
                 (''min_time'', Num 0),
                 (''max_time'', Num 0),
                 (''cumulative_percentage'', Num 0),
                 (''timeline_percentage'', Num 0)])"

record summary =
  session_duration :: rat
  total_operations :: nat
  categories :: "string \<rightharpoonup> stats"

text \<open>
  The loop \<open>for category in self.CATEGORIES\<close>, filling \<open>summary["categories"]\<close>.
  Python fixes no iteration order for a set; the loop runs here in the order of
  the literal, and the dict it returns is the same for every order.
\<close>

fun summarize ::
  "instrumentor \<Rightarrow> rat \<Rightarrow> string list \<Rightarrow> (string \<rightharpoonup> stats) \<Rightarrow> error + (string \<rightharpoonup> stats)" where
  "summarize s d [] acc = Inr acc"
| "summarize s d (category # rest) acc =
     (case category_stats s d category of
        Inl e \<Rightarrow> Inl e
      | Inr st \<Rightarrow> summarize s d rest (acc(category \<mapsto> st)))"

definition get_summary :: "rat \<Rightarrow> instrumentor \<Rightarrow> error + summary" where
  "get_summary now s =
     (let d = (case start_time s of
                 None \<Rightarrow> 0
               | Some t0 \<Rightarrow> if t0 \<noteq> 0 then now - t0 else 0)
      in bind_err (summarize s d CATEGORIES_list Map.empty)
           (\<lambda>cats. Inr \<lparr>session_duration = d,
                         total_operations = length (operations s),
                         categories = cats\<rparr>))"

section \<open>Call sequences\<close>

text \<open>
  A public call together with the clock readings it consumes. An exception leaves
  the state as it is at the \<open>raise\<close>, and the sequence goes on.
\<close>

datatype call =
    Reset
  | StartSession rat
  | StartOperation string string "metadata option" rat rat rat
  | EndOperation string rat

fun step :: "(rat \<Rightarrow> string) \<Rightarrow> call \<Rightarrow> instrumentor \<Rightarrow> instrumentor" where
  "step fmt Reset s = reset s"
| "step fmt (StartSession now) s = start_session now s"
| "step fmt (StartOperation category operation_name metadata t_session t_id t_start) s =
     (case start_operation fmt t_session t_id t_start category operation_name metadata s of
        Inl e \<Rightarrow> s
      | Inr (operation_id, s') \<Rightarrow> s')"
| "step fmt (EndOperation operation_id end_time) s = snd (end_operation end_time operation_id s)"

fun run :: "(rat \<Rightarrow> string) \<Rightarrow> call list \<Rightarrow> instrumentor \<Rightarrow> instrumentor" where
  "run fmt [] s = s"
| "run fmt (c # cs) s = run fmt cs (step fmt c s)"

fun readings :: "call \<Rightarrow> rat list" where
  "readings Reset = []"
| "readings (StartSession now) = [now]"
| "readings (StartOperation category operation_name metadata t_session t_id t_start) =
     [t_session, t_id, t_start]"
| "readings (EndOperation operation_id end_time) = [end_time]"

text \<open>A session with two operations of one category, one of them completed.\<close>

definition example_calls :: "call list" where
  "example_calls =
     [StartSession 1,
      StartOperation ''llm_calls'' ''a'' None 1 1 1,
      StartOperation ''llm_calls'' ''b'' None 1 2 2,
      EndOperation ''llm_calls_a_t'' 3]"

text \<open>Three operations of one category, each lasting the whole session.\<close>

definition parallel_calls :: "call list" where
  "parallel_calls =
     [StartSession 1,
      StartOperation ''llm_calls'' ''q1'' None 1 1 1,
      StartOperation ''llm_calls'' ''q2'' None 1 1 1,
      StartOperation ''llm_calls'' ''q3'' None 1 1 1,
      EndOperation ''llm_calls_q1_t'' 3,
      EndOperation ''llm_calls_q2_t'' 3,
      EndOperation ''llm_calls_q3_t'' 3]"


text \<open>Two operations of one category, one after the other.\<close>

definition sequential_calls :: "call list" where
  "sequential_calls =
     [StartSession 1,
      StartOperation ''llm_calls'' ''a'' None 1 1 1,
      EndOperation ''llm_calls_a_t'' 2,
      StartOperation ''llm_calls'' ''b'' None 3 3 3,
      EndOperation ''llm_calls_b_t'' 4]"


text \<open>
  A formatting of the clock reading for the examples below, where the readings
  that enter an id are equal whenever the ids are.
\<close>

definition same_fmt :: "rat \<Rightarrow> string" where
  "same_fmt t = ''t''"

text \<open>
  One operation of \<open>7/1024\<close> seconds, started one second into a session that
  began at \<open>time.time() = 1700000000.0\<close>.
\<close>

definition rounding_calls :: "call list" where
  "rounding_calls =
     [StartSession 1700000000,
      StartOperation ''llm_calls'' ''q'' None 1700000000 1700000001 1700000001,
      EndOperation ''llm_calls_q_t'' (1700000001 + 7 / 1024)]"

text \<open>
  \<open>track_operation\<close>: the context manager runs \<open>start_operation\<close>, the body
  of the \<open>with\<close> block (any state transformer, given the id), and
  \<open>end_operation\<close> in its \<open>finally\<close> clause.
\<close>

definition track_operation ::
  "(rat \<Rightarrow> string) \<Rightarrow> rat \<Rightarrow> rat \<Rightarrow> rat \<Rightarrow> string \<Rightarrow> string \<Rightarrow> metadata option
     \<Rightarrow> (string \<Rightarrow> instrumentor \<Rightarrow> instrumentor) \<Rightarrow> rat \<Rightarrow> instrumentor
     \<Rightarrow> error + instrumentor" where
  "track_operation fmt t_session t_id t_start category operation_name metadata body end_time s =
     (case start_operation fmt t_session t_id t_start category operation_name metadata s of
        Inl e \<Rightarrow> Inl e
      | Inr (operation_id, s1) \<Rightarrow>
          Inr (snd (end_operation end_time operation_id (body operation_id s1))))"

text \<open>The subscript \<open>data[key]\<close> of a consumer of the summary.\<close>

definition getitem :: "stats \<Rightarrow> string \<Rightarrow> error + pynum" where
  "getitem d k = (case map_of d k of None \<Rightarrow> Inl KeyError | Some v \<Rightarrow> Inr v)"

section \<open>Lock discipline\<close>

text \<open>
  The accesses of each mutating method to the four attributes of the session
  state, in program order, with the entry and the exit of every
  \<open>with self._lock\<close> block. \<open>start_session\<close> assigns \<open>self.start_time\<close> after
  \<open>reset()\<close> has returned, outside any \<open>with\<close> block; \<open>start_operation\<close> tests
  \<open>self.start_time is None\<close> before it takes the lock.
\<close>

datatype attribute = Operations | ActiveOperations | Aggregates | StartTime

datatype event = Acquire | Release | Read attribute | Write attribute

definition reset_events :: "event list" where
  "reset_events =
     [Acquire, Write Operations, Write ActiveOperations, Write Aggregates, Write StartTime,
      Release]"

definition start_session_events :: "event list" where
  "start_session_events = reset_events @ [Write StartTime]"

definition start_operation_events :: "string \<Rightarrow> instrumentor \<Rightarrow> event list" where
  "start_operation_events category s =
     (if category \<notin> CATEGORIES then []
      else [Read StartTime]
           @ (if start_time s = None then start_session_events else [])
           @ [Acquire, Write ActiveOperations, Release])"

definition end_operation_events :: "string \<Rightarrow> instrumentor \<Rightarrow> event list" where
  "end_operation_events operation_id s =
     (case active_operations s operation_id of
        None \<Rightarrow> [Acquire, Read ActiveOperations, Release]
      | Some op_info \<Rightarrow>
          [Acquire, Read ActiveOperations, Write ActiveOperations, Read StartTime,
           Write Operations, Read Aggregates]
          @ (case aggregates s (act_category op_info) of
               None \<Rightarrow> []
             | Some agg \<Rightarrow> [Write Aggregates])
          @ [Release])"

text \<open>Every write of the trace happens between an \<open>Acquire\<close> and its \<open>Release\<close>.\<close>

fun writes_under_lock :: "bool \<Rightarrow> event list \<Rightarrow> bool" where
  "writes_under_lock held [] = True"
| "writes_under_lock held (Acquire # es) = writes_under_lock True es"
| "writes_under_lock held (Release # es) = writes_under_lock False es"
| "writes_under_lock held (Read a # es) = writes_under_lock held es"
| "writes_under_lock held (Write a # es) = (held \<and> writes_under_lock held es)"

text \<open>
  Threads run their traces under a schedule (the thread that moves next); a
  thread whose next event is \<open>Acquire\<close> waits while another holds the lock. The
  result tells whether some thread writes an attribute while another thread is
  inside its \<open>with self._lock\<close> block.
\<close>

fun write_beside_holder :: "nat list \<Rightarrow> nat option \<Rightarrow> event list list \<Rightarrow> bool" where
  "write_beside_holder [] holder threads = False"
| "write_beside_holder (t # schedule) holder threads =
     (if length threads \<le> t then write_beside_holder schedule holder threads
      else
        (case threads ! t of
           [] \<Rightarrow> write_beside_holder schedule holder threads
         | Acquire # es \<Rightarrow>
             (if holder = None then write_beside_holder schedule (Some t) (threads[t := es])
              else write_beside_holder schedule holder threads)
         | Release # es \<Rightarrow> write_beside_holder schedule None (threads[t := es])
         | Read a # es \<Rightarrow> write_beside_holder schedule holder (threads[t := es])
         | Write a # es \<Rightarrow>
             (case holder of
                None \<Rightarrow> write_beside_holder schedule holder (threads[t := es])
              | Some u \<Rightarrow>
                  (if u = t then write_beside_holder schedule holder (threads[t := es])
                   else True))))"

section \<open>The coverage algorithm as the specification words it\<close>

text \<open>
  Sweep once over the intervals, holding the current merged interval: the next
  interval is merged into it when its start is at most the current end, and
  otherwise the current interval is closed and the next one becomes current.
\<close>

fun spec_sweep :: "rat \<times> rat \<Rightarrow> (rat \<times> rat) list \<Rightarrow> (rat \<times> rat) list" where
  "spec_sweep cur [] = [cur]"
| "spec_sweep cur (iv # rest) =
     (if fst iv \<le> snd cur
      then spec_sweep (fst cur, max (snd cur) (snd iv)) rest
      else cur # spec_sweep iv rest)"

fun spec_merged :: "(rat \<times> rat) list \<Rightarrow> (rat \<times> rat) list" where
  "spec_merged [] = []"
| "spec_merged (iv # rest) = spec_sweep iv rest"

definition spec_coverage :: "(rat \<times> rat) list \<Rightarrow> rat" where
  "spec_coverage ys = sum_list (map (\<lambda>iv. snd iv - fst iv) (spec_merged ys))"



section \<open>Invariants of the session state\<close>

text \<open>
  The bookkeeping invariant: the aggregate map has exactly the six categories as
  keys, every count and total agrees with the completed log, every category in
  the state is one of the six, and nothing is recorded without a session.
\<close>

definition consistent :: "instrumentor \<Rightarrow> bool" where
  "consistent s \<longleftrightarrow>
     (\<forall>c. c \<notin> CATEGORIES \<longrightarrow> aggregates s c = None) \<and>
     (\<forall>c\<in>CATEGORIES. \<exists>agg. aggregates s c = Some agg \<and>
        count_n agg = length (filter (\<lambda>r. op_category r = c) (operations s)) \<and>
        total_time agg = sum_list (map op_duration (filter (\<lambda>r. op_category r = c) (operations s)))) \<and>
     (\<forall>k a. active_operations s k = Some a \<longrightarrow> act_category a \<in> CATEGORIES) \<and>
     (\<forall>r\<in>set (operations s). op_category r \<in> CATEGORIES \<and>
        op_relative_end r - op_relative_start r = op_duration r) \<and>
     (start_time s = None \<longrightarrow> operations s = [] \<and> active_operations s = Map.empty)"

text \<open>
  The timing invariant under a clock that has not read more than \<open>T\<close> so far
  and never goes back.
\<close>

definition timed :: "rat \<Rightarrow> instrumentor \<Rightarrow> bool" where
  "timed T s \<longleftrightarrow>
     (case start_time s of
        None \<Rightarrow> operations s = [] \<and> active_operations s = Map.empty
      | Some t0 \<Rightarrow>
          t0 \<le> T \<and>
          (\<forall>k a. active_operations s k = Some a \<longrightarrow>
             t0 \<le> act_start_time a \<and> act_start_time a \<le> T) \<and>
          (\<forall>r\<in>set (operations s). op_relative_start r \<le> op_relative_end r \<and>
             (t0 \<noteq> 0 \<longrightarrow> 0 \<le> op_relative_start r \<and> op_relative_end r \<le> T - t0)))"

text \<open>Every record is stamped relative to the session start in force.\<close>

definition anchored :: "instrumentor \<Rightarrow> bool" where
  "anchored s \<longleftrightarrow>
     (case start_time s of
        None \<Rightarrow> operations s = [] \<and> active_operations s = Map.empty
      | Some t0 \<Rightarrow>
          t0 \<noteq> 0 \<and>
          (\<forall>r\<in>set (operations s).
             op_relative_start r = op_start_time r - t0 \<and>
             op_relative_end r = op_end_time r - t0))"

section \<open>Basic facts about the operations\<close>

lemmas eval_defs = init_def start_session_def reset_def start_operation_def
  operation_id_of_def end_operation_def Let_def CATEGORIES_def CATEGORIES_list_def
  initial_aggregates_def



lemma end_operation_active:
  assumes "active_operations s i = Some a" and "aggregates s (act_category a) = Some agg"
  shows "end_operation t i s =
    (None,
     s\<lparr>active_operations := (active_operations s)(i := None),
       operations := operations s @
         [\<lparr>op_category = act_category a,
           op_operation_name = act_operation_name a,
           op_start_time = act_start_time a,
           op_end_time = t,
           op_duration = t - act_start_time a,
           op_relative_start =
             (case start_time s of None \<Rightarrow> 0
              | Some t0 \<Rightarrow> if t0 \<noteq> 0 then act_start_time a - t0 else 0),
           op_relative_end =
             (case start_time s of None \<Rightarrow> t - act_start_time a
              | Some t0 \<Rightarrow> if t0 \<noteq> 0 then t - t0 else t - act_start_time a),
           op_metadata = act_metadata a\<rparr>],
       aggregates := (aggregates s)(act_category a \<mapsto>
         \<lparr>total_time = total_time agg + (t - act_start_time a),
          count_n = count_n agg + 1,
          min_time = min_num (min_time agg) (t - act_start_time a),
          max_time = max (max_time agg) (t - act_start_time a)\<rparr>)\<rparr>)"
  using assms by (simp add: end_operation_def Let_def)

lemma end_operation_inactive:
  "active_operations s i = None \<Longrightarrow> end_operation t i s = (None, s)"
  by (simp add: end_operation_def)

lemma consistent_init: "consistent init"
  by (auto simp: consistent_def init_def initial_aggregates_def)

lemma consistent_reset: "consistent (reset s)"
  by (auto simp: consistent_def reset_def initial_aggregates_def)

lemma consistent_start_session: "consistent (start_session t s)"
  by (auto simp: consistent_def start_session_def reset_def initial_aggregates_def)

lemma start_operation_valid:
  assumes "start_operation fmt ts ti tb c n m s = Inr (i, s')"
  shows "c \<in> CATEGORIES"
    and "i = operation_id_of fmt c n ti"
    and "s' = (if start_time s = None then start_session ts s else s)
           \<lparr>active_operations :=
              (active_operations (if start_time s = None then start_session ts s else s))
                (i \<mapsto> \<lparr>act_category = c, act_operation_name = n, act_start_time = tb,
                         act_metadata = (case m of None \<Rightarrow> [] | Some x \<Rightarrow> x)\<rparr>)\<rparr>"
  using assms by (auto simp: start_operation_def Let_def split: if_splits)

lemma consistent_start_operation:
  assumes "consistent s"
    and "start_operation fmt ts ti tb c n m s = Inr (i, s')"
  shows "consistent s'"
proof -
  note v = start_operation_valid [OF assms(2)]
  define s1 where "s1 = (if start_time s = None then start_session ts s else s)"
  have s1: "consistent s1" "start_time s1 \<noteq> None"
    using assms(1) consistent_start_session [of ts s]
    by (auto simp: s1_def start_session_def)
  have s': "s' = s1\<lparr>active_operations := (active_operations s1)
      (i \<mapsto> \<lparr>act_category = c, act_operation_name = n, act_start_time = tb,
                         act_metadata = (case m of None \<Rightarrow> [] | Some x \<Rightarrow> x)\<rparr>)\<rparr>"
    using v(3) by (simp add: s1_def)
  from s1 v(1) show ?thesis
    unfolding s' consistent_def by (auto split: if_splits)
qed

lemma consistent_end_operation:
  assumes "consistent s"
  shows "consistent (snd (end_operation t i s))"
proof (cases "active_operations s i")
  case None
  with assms show ?thesis by (simp add: end_operation_inactive)
next
  case (Some a)
  with assms have c: "act_category a \<in> CATEGORIES"
    by (auto simp: consistent_def)
  with assms obtain agg where agg: "aggregates s (act_category a) = Some agg"
    and cnt: "count_n agg = length (filter (\<lambda>r. op_category r = act_category a) (operations s))"
    and tot: "total_time agg = sum_list (map op_duration (filter (\<lambda>r. op_category r = act_category a) (operations s)))"
    by (auto simp: consistent_def)
  from assms have st: "start_time s \<noteq> None"
    using Some by (auto simp: consistent_def)
  note eq = end_operation_active [OF Some agg, of t]
  have 1: "\<forall>c. c \<notin> CATEGORIES \<longrightarrow> aggregates (snd (end_operation t i s)) c = None"
    using assms c by (auto simp: eq consistent_def)
  have 2: "\<forall>c\<in>CATEGORIES. \<exists>g. aggregates (snd (end_operation t i s)) c = Some g \<and>
        count_n g = length (filter (\<lambda>r. op_category r = c) (operations (snd (end_operation t i s)))) \<and>
        total_time g = sum_list (map op_duration (filter (\<lambda>r. op_category r = c) (operations (snd (end_operation t i s)))))"
    using assms c cnt tot unfolding eq consistent_def by auto
  have 3: "\<forall>k b. active_operations (snd (end_operation t i s)) k = Some b \<longrightarrow> act_category b \<in> CATEGORIES"
    using assms unfolding eq consistent_def by (auto split: if_splits)
  have 4: "\<forall>r\<in>set (operations (snd (end_operation t i s))). op_category r \<in> CATEGORIES \<and>
        op_relative_end r - op_relative_start r = op_duration r"
    using assms c unfolding eq consistent_def by (auto split: option.splits)
  have 5: "start_time (snd (end_operation t i s)) \<noteq> None"
    using st by (simp add: eq)
  from 1 2 3 4 5 show ?thesis
    unfolding consistent_def by blast
qed

lemma consistent_step: "consistent s \<Longrightarrow> consistent (step fmt c s)"
proof (cases c)
  case (StartOperation c n m ts ti tb)
  assume "consistent s"
  then show ?thesis
    using consistent_start_operation [of s fmt ts ti tb c n m]
    by (auto simp: StartOperation split: sum.splits)
qed (auto simp: consistent_reset consistent_start_session consistent_end_operation)

lemma consistent_run: "consistent s \<Longrightarrow> consistent (run fmt cs s)"
  by (induction cs arbitrary: s) (auto simp: consistent_step)

lemma category_stats_defined:
  "aggregates s c = Some agg \<Longrightarrow> \<exists>st. category_stats s d c = Inr st"
  by (simp add: category_stats_def bind_err_def py_div_def calculate_timeline_coverage_def)

lemma category_stats_zero:
  "aggregates s c = Some agg \<Longrightarrow> count_n agg = 0 \<Longrightarrow>
     category_stats s d c =
       Inr [(''total_time'', Num 0), (''count'', Num 0), (''average_time'', Num 0),
            (''min_time'', Num 0), (''max_time'', Num 0),
            (''cumulative_percentage'', Num 0), (''timeline_percentage'', Num 0)]"
  by (simp add: category_stats_def)

lemma summarize_map:
  "\<forall>c\<in>set cs. category_stats s d c = Inr (f c) \<Longrightarrow>
     summarize s d cs acc = Inr (\<lambda>c. if c \<in> set cs then Some (f c) else acc c)"
proof (induction cs arbitrary: acc)
  case Nil
  then show ?case by simp
next
  case (Cons a cs)
  have "(\<lambda>c. if c \<in> set cs then Some (f c) else (acc(a \<mapsto> f a)) c)
      = (\<lambda>c. if c \<in> set (a # cs) then Some (f c) else acc c)"
    by (rule ext) simp
  with Cons show ?case by simp
qed

lemma get_summary_defined:
  assumes "\<forall>c\<in>CATEGORIES. \<exists>agg. aggregates s c = Some agg"
  shows "\<exists>sm. get_summary now s = Inr sm"
proof -
  define d where "d = (case start_time s of None \<Rightarrow> 0
               | Some t0 \<Rightarrow> if t0 \<noteq> 0 then now - t0 else 0)"
  have "\<forall>c\<in>set CATEGORIES_list. \<exists>st. category_stats s d c = Inr st"
    using assms category_stats_defined by (fastforce simp: CATEGORIES_def)
  then have "\<forall>c\<in>set CATEGORIES_list. category_stats s d c = Inr (projr (category_stats s d c))"
    by fastforce
  from summarize_map [OF this, of Map.empty]
  show ?thesis by (simp add: get_summary_def d_def [symmetric] bind_err_def)
qed

lemma get_summary_consistent:
  "consistent s \<Longrightarrow> \<exists>sm. get_summary now s = Inr sm"
  by (rule get_summary_defined) (auto simp: consistent_def)

lemma get_summary_empty_log:
  assumes "consistent s" and "operations s = []"
  shows "\<exists>sm. get_summary now s = Inr sm \<and> total_operations sm = 0 \<and>
     (start_time s = None \<longrightarrow> session_duration sm = 0) \<and>
     categories sm = (\<lambda>c. if c \<in> CATEGORIES then
        Some [(''total_time'', Num 0), (''count'', Num 0), (''average_time'', Num 0),
              (''min_time'', Num 0), (''max_time'', Num 0),
              (''cumulative_percentage'', Num 0), (''timeline_percentage'', Num 0)]
        else None)"
proof -
  define d where "d = (case start_time s of None \<Rightarrow> 0
               | Some t0 \<Rightarrow> if t0 \<noteq> 0 then now - t0 else 0)"
  define z where "z = [(''total_time'', Num 0), (''count'', Num 0), (''average_time'', Num 0),
              (''min_time'', Num 0), (''max_time'', Num 0),
              (''cumulative_percentage'', Num 0), (''timeline_percentage'', Num (0::rat))]"
  have "\<forall>c\<in>set CATEGORIES_list. category_stats s d c = Inr ((\<lambda>c. z) c)"
  proof
    fix c assume "c \<in> set CATEGORIES_list"
    then have "c \<in> CATEGORIES" by (simp add: CATEGORIES_def)
    with assms obtain agg where "aggregates s c = Some agg" "count_n agg = 0"
      by (auto simp: consistent_def)
    then show "category_stats s d c = Inr z"
      unfolding z_def by (rule category_stats_zero)
  qed
  from summarize_map [OF this, of Map.empty]
  have "summarize s d CATEGORIES_list Map.empty = Inr (\<lambda>c. if c \<in> CATEGORIES then Some z else None)"
    by (simp add: CATEGORIES_def)
  then have "get_summary now s = Inr \<lparr>session_duration = d, total_operations = 0,
      categories = (\<lambda>c. if c \<in> CATEGORIES then Some z else None)\<rparr>"
    using assms(2) by (simp add: get_summary_def d_def [symmetric] bind_err_def)
  moreover have "start_time s = None \<longrightarrow> d = 0" by (simp add: d_def)
  ultimately show ?thesis unfolding z_def by simp
qed


lemma category_stats_keys:
  "category_stats s d c = Inr st \<Longrightarrow>
     map fst st = [''total_time'', ''count'', ''average_time'', ''min_time'', ''max_time'',
                   ''cumulative_percentage'', ''timeline_percentage'']"
  by (auto simp: category_stats_def bind_err_def py_div_def calculate_timeline_coverage_def
      split: option.splits if_splits sum.splits)

lemma summarize_entries:
  "summarize s d cs acc = Inr m \<Longrightarrow> m c = Some st \<Longrightarrow>
     acc c = Some st \<or> (c \<in> set cs \<and> category_stats s d c = Inr st)"
proof (induction cs arbitrary: acc)
  case Nil
  then show ?case by simp
next
  case (Cons a cs)
  from Cons.prems(1) obtain sa where sa: "category_stats s d a = Inr sa"
    and rest: "summarize s d cs (acc(a \<mapsto> sa)) = Inr m"
    by (auto split: sum.splits)
  from Cons.IH [OF rest Cons.prems(2)] sa show ?case
    by (auto split: if_splits)
qed

lemma get_summary_entries:
  "get_summary now s = Inr sm \<Longrightarrow> categories sm c = Some st \<Longrightarrow>
     c \<in> CATEGORIES \<and> category_stats s (session_duration sm) c = Inr st"
  using summarize_entries [of s _ CATEGORIES_list Map.empty _ c st]
  by (auto simp: get_summary_def bind_err_def CATEGORIES_def Let_def split: sum.splits)


section \<open>The sweep of the source and the sweep of the specification\<close>

lemma foldl_merge_step_sweep:
  "foldl merge_step (m @ [cur]) xs = m @ spec_sweep cur xs"
proof (induction xs arbitrary: m cur)
  case Nil
  then show ?case by simp
next
  case (Cons iv xs)
  show ?case
  proof (cases "fst iv \<le> snd cur")
    case True
    then have "merge_step (m @ [cur]) iv = m @ [(fst cur, max (snd cur) (snd iv))]"
      by (simp add: merge_step_def)
    with True Cons.IH [of m "(fst cur, max (snd cur) (snd iv))"] show ?thesis by simp
  next
    case False
    then have "merge_step (m @ [cur]) iv = (m @ [cur]) @ [iv]"
      by (simp add: merge_step_def)
    with False Cons.IH [of "m @ [cur]" iv] show ?thesis by simp
  qed
qed

lemma foldl_merge_step_spec: "foldl merge_step [] xs = spec_merged xs"
proof (cases xs)
  case Nil
  then show ?thesis by simp
next
  case (Cons iv rest)
  have "merge_step [] iv = [] @ [iv]" by (simp add: merge_step_def)
  with foldl_merge_step_sweep [of "[]" iv rest] Cons show ?thesis by simp
qed

lemma total_coverage_spec: "total_coverage ivs = spec_coverage (sort ivs)"
  by (simp add: total_coverage_def spec_coverage_def foldl_merge_step_spec case_prod_unfold)

lemma spec_sweep_bound:
  assumes "fst cur \<le> snd cur" "snd cur \<le> D"
    and "\<forall>iv\<in>set xs. fst iv \<le> snd iv \<and> snd iv \<le> D"
  shows "0 \<le> sum_list (map (\<lambda>iv. snd iv - fst iv) (spec_sweep cur xs)) \<and>
         sum_list (map (\<lambda>iv. snd iv - fst iv) (spec_sweep cur xs)) \<le> D - fst cur"
  using assms
proof (induction xs arbitrary: cur)
  case Nil
  then show ?case by simp
next
  case (Cons iv xs)
  show ?case
  proof (cases "fst iv \<le> snd cur")
    case True
    have "fst (fst cur, max (snd cur) (snd iv)) \<le> snd (fst cur, max (snd cur) (snd iv))"
      "snd (fst cur, max (snd cur) (snd iv)) \<le> D"
      using Cons.prems by auto
    from Cons.IH [OF this] Cons.prems(3) True show ?thesis by simp
  next
    case False
    have "fst iv \<le> snd iv" "snd iv \<le> D" using Cons.prems by auto
    from Cons.IH [OF this] Cons.prems False show ?thesis by auto
  qed
qed

lemma spec_coverage_bound:
  assumes "\<forall>iv\<in>set xs. 0 \<le> fst iv \<and> fst iv \<le> snd iv \<and> snd iv \<le> D" and "0 \<le> D"
  shows "0 \<le> spec_coverage xs \<and> spec_coverage xs \<le> D"
proof (cases xs)
  case Nil
  with assms show ?thesis by (auto simp: spec_coverage_def)
next
  case (Cons iv rest)
  with assms have "fst iv \<le> snd iv" "snd iv \<le> D" "0 \<le> fst iv"
    "\<forall>x\<in>set rest. fst x \<le> snd x \<and> snd x \<le> D" by auto
  with spec_sweep_bound [of iv D rest] Cons show ?thesis
    by (auto simp: spec_coverage_def)
qed

lemma total_coverage_bound:
  assumes "\<forall>iv\<in>set xs. 0 \<le> fst iv \<and> fst iv \<le> snd iv \<and> snd iv \<le> D" and "0 \<le> D"
  shows "0 \<le> total_coverage xs \<and> total_coverage xs \<le> D"
  using spec_coverage_bound [of "sort xs" D] assms by (simp add: total_coverage_spec)

lemma round_half_even_bounds:
  assumes "of_int a \<le> y" "y \<le> of_int b"
  shows "a \<le> round_half_even y \<and> round_half_even y \<le> b"
proof -
  have lo: "a \<le> \<lfloor>y\<rfloor>" using assms(1) by (simp add: le_floor_iff)
  have hi: "\<lfloor>y\<rfloor> \<le> b" using floor_mono [OF assms(2)] by simp
  have eq: "\<lfloor>y\<rfloor> = b \<Longrightarrow> y - of_int \<lfloor>y\<rfloor> = 0"
  proof -
    assume "\<lfloor>y\<rfloor> = b"
    then have "of_int b \<le> y" using of_int_floor_le [of y] by simp
    with assms(2) \<open>\<lfloor>y\<rfloor> = b\<close> show ?thesis by simp
  qed
  show ?thesis
  proof (cases "\<lfloor>y\<rfloor> = b")
    case True
    with eq lo show ?thesis by (simp add: round_half_even_def Let_def)
  next
    case False
    with hi have "\<lfloor>y\<rfloor> + 1 \<le> b" by simp
    with lo hi show ?thesis by (auto simp: round_half_even_def Let_def)
  qed
qed

lemma floor_numeral_divide:
  "\<lfloor>numeral a / numeral b :: rat\<rfloor> = numeral a div numeral b"
  using floor_divide_of_int_eq [of "numeral a" "numeral b", where ?'a = rat] by simp

lemma bitlength_lower: "0 < n \<Longrightarrow> 2 ^ (bitlength n - 1) \<le> n"
proof (induction n rule: bitlength.induct)
  case (1 n)
  show ?case
  proof (cases "n div 2 = 0")
    case True
    with "1.prems" have "n = 1" by (simp add: div_eq_0_iff) 
    then show ?thesis by (simp add: bitlength.simps)
  next
    case False
    with "1.IH" "1.prems" have ih: "2 ^ (bitlength (n div 2) - 1) \<le> n div 2" by simp
    from False have pos: "0 < bitlength (n div 2)" by (simp add: bitlength.simps [of "n div 2"])
    have "bitlength n = Suc (bitlength (n div 2))"
      using "1.prems" by (simp add: bitlength.simps [of n])
    then have "(2::nat) ^ (bitlength n - 1) = 2 * 2 ^ (bitlength (n div 2) - 1)"
      using pos by (cases "bitlength (n div 2)") simp_all
    also have "\<dots> \<le> 2 * (n div 2)" using ih by simp
    also have "\<dots> \<le> n" by simp
    finally show ?thesis .
  qed
qed

lemma bitlength_upper: "n < 2 ^ bitlength n"
proof (induction n rule: bitlength.induct)
  case (1 n)
  show ?case
  proof (cases "n = 0")
    case True
    then show ?thesis by simp
  next
    case False
    with "1.IH" have "n div 2 < 2 ^ bitlength (n div 2)" by simp
    then have "n < 2 * 2 ^ bitlength (n div 2)" by linarith
    with False show ?thesis by (simp add: bitlength.simps [of n])
  qed
qed

lemma pow2_powi: "pow2 k = 2 powi k"
  by (simp add: pow2_def power_int_def inverse_eq_divide power_one_over)

lemma ilog2_le:
  assumes "0 < x"
  shows "2 powi (ilog2 x) \<le> x"
proof -
  obtain p q where pq: "quotient_of x = (p, q)" by (cases "quotient_of x")
  then have q: "0 < q" and x: "x = of_int p / of_int q"
    using quotient_of_denom_pos [OF pq] quotient_of_div [OF pq] by simp_all
  with assms have p: "0 < p" by (simp add: zero_less_divide_iff)
  define a where "a = bitlength (nat p) - 1"
  define b where "b = bitlength (nat q)"
  define k where "k = int (bitlength (nat p)) - int (bitlength (nat q))"
  have bp: "0 < bitlength (nat p)"
    using p by (simp add: bitlength.simps [of "nat p"])
  have la: "(2::nat) ^ a \<le> nat p" unfolding a_def using p by (intro bitlength_lower) simp
  have ub: "nat q < 2 ^ b" unfolding b_def by (rule bitlength_upper)
  have k1: "k - 1 = int a - int b" using bp by (simp add: k_def a_def b_def)
  have "(2::rat) powi (k - 1) = 2 powi (int a) / 2 powi (int b)"
    unfolding k1 by (rule power_int_diff) simp
  also have "\<dots> = 2 ^ a / 2 ^ b" by simp
  also have "\<dots> \<le> of_int p / of_int q"
  proof (rule frac_le)
    have "(of_nat (2 ^ a) :: rat) \<le> of_nat (nat p)" using la by (simp only: of_nat_le_iff)
    then show "(2::rat) ^ a \<le> of_int p" using p by simp
    have "(of_nat (nat q) :: rat) \<le> of_nat (2 ^ b)" using ub by (simp only: of_nat_le_iff)
    then show "(of_int q :: rat) \<le> 2 ^ b" using q by simp
    show "(0::rat) < of_int q" using q by simp
    show "(0::rat) \<le> of_int p" using p by simp
  qed
  finally have low: "2 powi (k - 1) \<le> x" by (simp add: x)
  show "2 powi (ilog2 x) \<le> x"
    using low by (simp add: ilog2_def pq k_def Let_def pow2_powi)
qed

lemma to_double_nonneg: "0 \<le> x \<Longrightarrow> 0 \<le> to_double x"
proof (cases "x = 0")
  case True
  then show ?thesis by (simp add: to_double_def)
next
  case False
  assume "0 \<le> x"
  define e where "e = max (ilog2 \<bar>x\<bar> - 52) (- 1074)"
  have "of_int 0 \<le> x / 2 powi e" using \<open>0 \<le> x\<close> by simp
  then have "0 \<le> round_half_even (x / 2 powi e)"
    using round_half_even_bounds [of 0 "x / 2 powi e" "\<lceil>x / 2 powi e\<rceil>"] by simp
  then show ?thesis using False by (simp add: to_double_def e_def [symmetric] Let_def pow2_powi)
qed

lemma to_double_le_int:
  assumes "0 \<le> x" "x \<le> of_int n" "n < 2 ^ 53"
  shows "to_double x \<le> of_int n"
proof (cases "x = 0")
  case True
  with assms show ?thesis by (simp add: to_double_def)
next
  case False
  with assms have pos: "0 < x" by simp
  define e where "e = max (ilog2 \<bar>x\<bar> - 52) (- 1074)"
  have "2 powi (ilog2 x) \<le> x" by (rule ilog2_le [OF pos])
  also have "x \<le> of_int n" by fact
  also have "(of_int n :: rat) < of_int (2 ^ 53)" using assms(3) by (simp only: of_int_less_iff)
  finally have "(2::rat) powi (ilog2 x) < 2 powi 53" by simp
  then have "ilog2 x < 53" by (rule power_int_le_imp_less_exp [rotated]) simp_all
  then have e0: "e \<le> 0" using pos by (simp add: e_def)
  define m where "m = nat (- e)"
  have pe: "(2::rat) powi e = 1 / 2 ^ m"
    using e0 by (simp add: power_int_def m_def inverse_eq_divide power_one_over)
  have "x / 2 powi e \<le> of_int (n * 2 ^ m)"
    using assms(2) by (simp add: pe)
  then have "round_half_even (x / 2 powi e) \<le> n * 2 ^ m"
    using round_half_even_bounds [of "\<lfloor>x / 2 powi e\<rfloor>" "x / 2 powi e" "n * 2 ^ m"] by simp
  then have "(of_int (round_half_even (x / 2 powi e)) :: rat) \<le> of_int (n * 2 ^ m)"
    by (simp only: of_int_le_iff)
  then have "of_int (round_half_even (x / 2 powi e)) * (2::rat) powi e \<le> of_int n"
    by (simp add: pe field_simps)
  then show ?thesis using False by (simp add: to_double_def e_def [symmetric] Let_def pow2_powi)
qed

lemma ilog2_gt:
  assumes "0 < x"
  shows "x < 2 powi (ilog2 x + 1)"
proof -
  obtain p q where pq: "quotient_of x = (p, q)" by (cases "quotient_of x")
  then have q: "0 < q" and x: "x = of_int p / of_int q"
    using quotient_of_denom_pos [OF pq] quotient_of_div [OF pq] by simp_all
  with assms have p: "0 < p" by (simp add: zero_less_divide_iff)
  define a where "a = bitlength (nat p)"
  define b where "b = bitlength (nat q) - 1"
  define k where "k = int (bitlength (nat p)) - int (bitlength (nat q))"
  have bq: "0 < bitlength (nat q)"
    using q by (simp add: bitlength.simps [of "nat q"])
  have ua: "nat p < 2 ^ a" unfolding a_def by (rule bitlength_upper)
  have lb: "(2::nat) ^ b \<le> nat q" unfolding b_def using q by (intro bitlength_lower) simp
  have k1: "k + 1 = int a - int b" using bq by (simp add: k_def a_def b_def)
  have "of_int p / of_int q < (2::rat) ^ a / 2 ^ b"
  proof (rule frac_less)
    have "(of_nat (nat p) :: rat) < of_nat (2 ^ a)" using ua by (simp only: of_nat_less_iff)
    then show "(of_int p :: rat) < 2 ^ a" using p by simp
    have "(of_nat (2 ^ b) :: rat) \<le> of_nat (nat q)" using lb by (simp only: of_nat_le_iff)
    then show "(2::rat) ^ b \<le> of_int q" using q by simp
    show "(0::rat) < 2 ^ b" by simp
    show "(0::rat) \<le> of_int p" using p by simp
  qed
  also have "\<dots> = 2 powi (int a) / 2 powi (int b)" by simp
  also have "\<dots> = 2 powi (k + 1)"
    unfolding k1 by (rule power_int_diff [symmetric]) simp
  finally have up: "x < 2 powi (k + 1)" by (simp add: x)
  show "x < 2 powi (ilog2 x + 1)"
    using up by (auto simp: ilog2_def pq k_def Let_def pow2_powi not_le)
qed

lemma ilog2_eq:
  assumes "2 powi k \<le> x" "x < 2 powi (k + 1)"
  shows "ilog2 x = k"
proof -
  have "(0::rat) < 2 powi k" by simp
  then have pos: "0 < x" using assms(1) by (rule less_le_trans)
  have s1: "(2::rat) powi (ilog2 x) < 2 powi (k + 1)"
    using ilog2_le [OF pos] assms(2) by simp
  have a: "ilog2 x < k + 1"
  proof (rule ccontr)
    assume "\<not> ilog2 x < k + 1"
    then have "k + 1 \<le> ilog2 x" by simp
    then have "(2::rat) powi (k + 1) \<le> 2 powi (ilog2 x)"
      by (intro power_int_increasing) simp_all
    with s1 show False by simp
  qed
  have s2: "(2::rat) powi k < 2 powi (ilog2 x + 1)"
    using ilog2_gt [OF pos] assms(1) by simp
  have b: "k < ilog2 x + 1"
  proof (rule ccontr)
    assume "\<not> k < ilog2 x + 1"
    then have "ilog2 x + 1 \<le> k" by simp
    then have "(2::rat) powi (ilog2 x + 1) \<le> 2 powi k"
      by (intro power_int_increasing) simp_all
    with s2 show False by simp
  qed
  from a b show ?thesis by simp
qed

lemma to_double_eval:
  assumes "2 powi k \<le> \<bar>x\<bar>" "\<bar>x\<bar> < 2 powi (k + 1)" "- 1022 \<le> k"
  shows "to_double x = of_int (round_half_even (x / 2 powi (k - 52))) * 2 powi (k - 52)"
proof -
  have "(0::rat) < 2 powi k" by simp
  then have "0 < \<bar>x\<bar>" using assms(1) by (rule less_le_trans)
  then have "x \<noteq> 0" by simp
  have nz: "(x = 0) = False" using \<open>x \<noteq> 0\<close> by simp
  have il: "ilog2 \<bar>x\<bar> = k" by (rule ilog2_eq [OF assms(1,2)])
  have e: "max (k - 52) (- 1074) = k - 52" using assms(3) by simp
  show ?thesis
    by (simp only: to_double_def Let_def pow2_powi il e nz if_False)
qed

lemma to_double_int:
  assumes "0 < n" "n < 2 ^ 53"
  shows "to_double (of_int n) = of_int n"
proof -
  have lo: "to_double (of_int n) \<le> of_int n"
    using assms by (intro to_double_le_int) simp_all
  define x :: rat where "x = of_int n"
  define e where "e = max (ilog2 \<bar>x\<bar> - 52) (- 1074)"
  have pos: "0 < x" using assms(1) by (simp add: x_def)
  have "2 powi (ilog2 x) \<le> x" by (rule ilog2_le [OF pos])
  also have "x < of_int (2 ^ 53)" unfolding x_def using assms(2) by (simp only: of_int_less_iff)
  finally have "(2::rat) powi (ilog2 x) < 2 powi 53" by simp
  then have "ilog2 x < 53" by (rule power_int_le_imp_less_exp [rotated]) simp_all
  then have e0: "e \<le> 0" using pos by (simp add: e_def)
  define m where "m = nat (- e)"
  have pe: "(2::rat) powi e = 1 / 2 ^ m"
    using e0 by (simp add: power_int_def m_def inverse_eq_divide power_one_over)
  have "x / 2 powi e = of_int (n * 2 ^ m)" by (simp add: pe x_def)
  then have "round_half_even (x / 2 powi e) = n * 2 ^ m"
    by (simp only: round_half_even_def Let_def floor_of_int) simp
  moreover have nz: "(x = 0) = False" using pos by simp
  have "to_double x = of_int (round_half_even (x / 2 powi e)) * 2 powi e"
    by (simp only: to_double_def Let_def pow2_powi e_def nz if_False)
  ultimately have "to_double x = of_int (n * 2 ^ m) * (1 / 2 ^ m)"
    by (simp only: pe)
  then show ?thesis by (simp add: x_def)
qed

lemma to_double_zero: "to_double 0 = 0"
  by (simp add: to_double_def)

lemma py_round_percent:
  assumes "0 \<le> x" "x \<le> 100"
  shows "0 \<le> py_round x 2 \<and> py_round x 2 \<le> 100"
proof -
  have "of_int 0 \<le> x * 10 ^ 2" "x * 10 ^ 2 \<le> of_int 10000"
    using assms by simp_all
  from round_half_even_bounds [OF this]
  have "0 \<le> round_half_even (x * 10 ^ 2)" "round_half_even (x * 10 ^ 2) \<le> 10000" by simp_all
  then have "(0::rat) \<le> of_int (round_half_even (x * 10 ^ 2))"
    "(of_int (round_half_even (x * 10 ^ 2)) :: rat) \<le> of_int 10000"
    by (simp_all only: of_int_le_iff of_int_0_le_iff)
  then have r: "(0::rat) \<le> of_int (round_half_even (x * 10 ^ 2)) / 10 ^ 2"
    "of_int (round_half_even (x * 10 ^ 2)) / 10 ^ 2 \<le> (of_int 100 :: rat)"
    by (simp_all add: divide_le_eq)
  from to_double_nonneg [OF r(1)] to_double_le_int [OF r, of ] show ?thesis
    by (simp add: py_round_def)
qed

lemma percentage_bounded:
  assumes "0 \<le> c" "c \<le> d" "0 < d"
  shows "0 \<le> py_round (py_mul (to_double (c / d)) 100) 2 \<and>
         py_round (py_mul (to_double (c / d)) 100) 2 \<le> 100"
proof -
  have q: "0 \<le> c / d" "c / d \<le> of_int 1" using assms by simp_all
  from to_double_nonneg [OF q(1)] to_double_le_int [OF q]
  have f: "0 \<le> to_double (c / d)" "to_double (c / d) \<le> 1" by simp_all
  then have m: "0 \<le> to_double (c / d) * 100" "to_double (c / d) * 100 \<le> of_int 100"
    by simp_all
  from to_double_nonneg [OF m(1)] to_double_le_int [OF m]
  have "0 \<le> py_mul (to_double (c / d)) 100" "py_mul (to_double (c / d)) 100 \<le> 100"
    by (simp_all add: py_mul_def)
  then show ?thesis by (rule py_round_percent)
qed

section \<open>Invariants under a monotone clock\<close>

lemma run_append: "run fmt (xs @ ys) s = run fmt ys (run fmt xs s)"
  by (induction xs arbitrary: s) auto

lemma timed_init: "timed T init"
  by (simp add: timed_def init_def)

lemma timed_reset: "timed T (reset s)"
  by (simp add: timed_def reset_def)

lemma timed_mono: "timed T s \<Longrightarrow> T \<le> T' \<Longrightarrow> timed T' s"
  unfolding timed_def by (cases "start_time s") (auto intro: order_trans)

lemma timed_start_session: "now \<le> T \<Longrightarrow> timed T (start_session now s)"
  by (simp add: timed_def start_session_def reset_def)

lemma timed_start_operation:
  assumes "timed T s" and "T \<le> ts" "ts \<le> tb"
    and "start_operation fmt ts ti tb c n m s = Inr (i, s')"
  shows "timed tb s'"
proof -
  note v = start_operation_valid [OF assms(4)]
  define s1 where "s1 = (if start_time s = None then start_session ts s else s)"
  have s1: "timed tb s1"
  proof (cases "start_time s")
    case None
    then show ?thesis using assms(3) by (simp add: s1_def timed_start_session)
  next
    case (Some t0)
    then show ?thesis using timed_mono [OF assms(1), of tb] assms(2,3) by (simp add: s1_def)
  qed
  have st: "\<exists>t0. start_time s1 = Some t0 \<and> t0 \<le> tb"
    using s1 assms(2,3) by (cases "start_time s") (auto simp: s1_def start_session_def timed_def)
  have low: "\<forall>t0. start_time s1 = Some t0 \<longrightarrow> t0 \<le> tb"
    using st by auto
  have s': "s' = s1\<lparr>active_operations := (active_operations s1)
      (i \<mapsto> \<lparr>act_category = c, act_operation_name = n, act_start_time = tb,
                         act_metadata = (case m of None \<Rightarrow> [] | Some x \<Rightarrow> x)\<rparr>)\<rparr>"
    using v(3) by (simp add: s1_def)
  from st obtain t0 where t0: "start_time s1 = Some t0" "t0 \<le> tb" by blast
  from s1 t0 show ?thesis
    unfolding s' timed_def by (auto split: if_splits)
qed

lemma timed_end_operation:
  assumes "timed T s" and "T \<le> te"
  shows "timed te (snd (end_operation te i s))"
proof (cases "active_operations s i")
  case None
  then show ?thesis using timed_mono [OF assms] by (simp add: end_operation_inactive)
next
  case (Some a)
  with assms(1) obtain t0 where t0: "start_time s = Some t0"
    by (cases "start_time s") (auto simp: timed_def)
  from assms(1) t0 Some have a: "t0 \<le> act_start_time a" "act_start_time a \<le> T"
    by (auto simp: timed_def)
  have old: "timed te s" by (rule timed_mono [OF assms])
  define r where "r = \<lparr>op_category = act_category a,
           op_operation_name = act_operation_name a,
           op_start_time = act_start_time a,
           op_end_time = te,
           op_duration = te - act_start_time a,
           op_relative_start = (if t0 \<noteq> 0 then act_start_time a - t0 else 0),
           op_relative_end = (if t0 \<noteq> 0 then te - t0 else te - act_start_time a),
           op_metadata = act_metadata a\<rparr>"
  have r: "op_relative_start r \<le> op_relative_end r"
    "t0 \<noteq> 0 \<longrightarrow> 0 \<le> op_relative_start r \<and> op_relative_end r \<le> te - t0"
    using a assms(2) by (auto simp: r_def)
  have shape: "start_time (snd (end_operation te i s)) = Some t0"
    "operations (snd (end_operation te i s)) = operations s @ [r]"
    "active_operations (snd (end_operation te i s)) = (active_operations s)(i := None)"
    using Some t0 by (auto simp: end_operation_def Let_def r_def split: option.splits)
  from old t0 r show ?thesis
    unfolding timed_def shape by (auto split: if_splits)
qed

lemma timed_step:
  assumes "timed T s" and "sorted (T # readings c)"
  shows "timed (last (T # readings c)) (step fmt c s)"
proof (cases c)
  case Reset
  then show ?thesis by (simp add: timed_reset)
next
  case (StartSession now)
  then show ?thesis by (simp add: timed_start_session)
next
  case (StartOperation cat n m ts ti tb)
  with assms(2) have le: "T \<le> ts" "ts \<le> tb" "T \<le> tb" by auto
  show ?thesis
  proof (cases "start_operation fmt ts ti tb cat n m s")
    case (Inl e)
    with StartOperation timed_mono [OF assms(1) le(3)] show ?thesis by simp
  next
    case (Inr p)
    obtain i s' where p: "p = (i, s')" by (cases p)
    from timed_start_operation [OF assms(1) le(1,2) Inr [unfolded p]]
    show ?thesis using StartOperation Inr p by simp
  qed
next
  case (EndOperation i te)
  with assms(2) have "T \<le> te" by simp
  from timed_end_operation [OF assms(1) this] EndOperation show ?thesis by simp
qed

lemma timed_run:
  assumes "timed T s" and "sorted (T # concat (map readings cs))"
  shows "timed (last (T # concat (map readings cs))) (run fmt cs s)"
  using assms
proof (induction cs arbitrary: T s)
  case Nil
  then show ?case by simp
next
  case (Cons c cs)
  let ?T' = "last (T # readings c)"
  from Cons.prems(2) have a: "sorted (T # readings c)"
    by (simp add: sorted_append)
  have b: "sorted (?T' # concat (map readings cs))"
    using Cons.prems(2) by (cases "readings c = []") (auto simp: sorted_append)
  have c: "last (?T' # concat (map readings cs)) = last (T # concat (map readings (c # cs)))"
    by (cases "readings c = []") auto
  from Cons.IH [OF timed_step [OF Cons.prems(1) a] b] c show ?case by simp
qed

lemma summarize_result:
  "summarize s d cs acc = Inr m \<Longrightarrow>
     m = (\<lambda>c. if c \<in> set cs then Some (projr (category_stats s d c)) else acc c) \<and>
     (\<forall>c\<in>set cs. \<exists>st. category_stats s d c = Inr st)"
proof (induction cs arbitrary: acc)
  case Nil
  then show ?case by simp
next
  case (Cons a cs)
  from Cons.prems obtain sa where sa: "category_stats s d a = Inr sa"
    and rest: "summarize s d cs (acc(a \<mapsto> sa)) = Inr m"
    by (auto split: sum.splits)
  from Cons.IH [OF rest] sa show ?case
    by (auto intro!: ext)
qed

lemma get_summary_result:
  assumes "get_summary now s = Inr sm"
  shows "session_duration sm =
           (case start_time s of None \<Rightarrow> 0
            | Some t0 \<Rightarrow> if t0 \<noteq> 0 then now - t0 else 0)"
    and "total_operations sm = length (operations s)"
    and "c \<in> CATEGORIES \<Longrightarrow>
           \<exists>st. categories sm c = Some st \<and> category_stats s (session_duration sm) c = Inr st"
    and "c \<notin> CATEGORIES \<Longrightarrow> categories sm c = None"
proof -
  define d where "d = (case start_time s of None \<Rightarrow> 0
            | Some t0 \<Rightarrow> if t0 \<noteq> 0 then now - t0 else 0)"
  from assms obtain m where m: "summarize s d CATEGORIES_list Map.empty = Inr m"
    and sm: "sm = \<lparr>session_duration = d, total_operations = length (operations s),
                   categories = m\<rparr>"
    by (auto simp: get_summary_def d_def [symmetric] bind_err_def split: sum.splits)
  note r = summarize_result [OF m]
  show "session_duration sm =
           (case start_time s of None \<Rightarrow> 0
            | Some t0 \<Rightarrow> if t0 \<noteq> 0 then now - t0 else 0)"
    by (simp add: sm d_def)
  show "total_operations sm = length (operations s)" by (simp add: sm)
  show "\<exists>st. categories sm c = Some st \<and> category_stats s (session_duration sm) c = Inr st"
    if "c \<in> CATEGORIES"
  proof -
    from that have c: "c \<in> set CATEGORIES_list" by (simp add: CATEGORIES_def)
    with r obtain st where st: "category_stats s d c = Inr st" by blast
    from r c have "m c = Some (projr (category_stats s d c))" by simp
    with st show ?thesis by (simp add: sm)
  qed
  show "categories sm c = None" if "c \<notin> CATEGORIES"
  proof -
    from that have "c \<notin> set CATEGORIES_list" by (simp add: CATEGORIES_def)
    with r have "m c = None" by simp
    then show ?thesis by (simp add: sm)
  qed
qed

lemma category_stats_percentages:
  assumes "category_stats s d c = Inr st"
  shows "\<exists>agg. aggregates s c = Some agg \<and>
     (if count_n agg > 0 \<and> d > 0 then
        map_of st ''cumulative_percentage'' =
          Some (Num (py_round (py_mul (to_double (total_time agg / d)) 100) 2)) \<and>
        map_of st ''timeline_percentage'' =
          Some (Num (if filter (\<lambda>r. op_category r = c) (operations s) = [] then 0
                     else py_round
                       (py_mul (to_double (total_coverage (category_intervals s c) / d)) 100) 2))
      else
        map_of st ''cumulative_percentage'' = Some (Num 0) \<and>
        map_of st ''timeline_percentage'' = Some (Num 0))"
  using assms
  by (auto simp: category_stats_def bind_err_def py_div_def calculate_timeline_coverage_def
      split: option.splits if_splits)

lemma timed_intervals:
  assumes "timed now s" and "start_time s = Some t0" and "t0 \<noteq> 0"
  shows "\<forall>iv\<in>set (category_intervals s c). 0 \<le> fst iv \<and> fst iv \<le> snd iv \<and> snd iv \<le> now - t0"
  using assms by (auto simp: timed_def category_intervals_def)

lemma timed_at_summary:
  assumes "sorted (concat (map readings calls) @ [now])"
  shows "timed now (run fmt calls init)"
proof -
  define rs where "rs = concat (map readings calls)"
  define T where "T = hd (rs @ [now])"
  have a: "sorted (rs @ [now])" using assms by (simp add: rs_def)
  have s: "sorted (T # rs)"
    using a unfolding T_def by (cases rs) (auto simp: sorted_append)
  have "last (T # rs) \<le> now"
    using a unfolding T_def by (cases rs rule: rev_cases) (auto simp: sorted_append)
  with timed_run [OF timed_init, of T calls fmt] s show ?thesis
    unfolding rs_def by (blast intro: timed_mono)
qed


section \<open>Records are stamped against the session start\<close>

lemma anchored_init: "anchored init"
  by (simp add: anchored_def init_def)

lemma anchored_reset: "anchored (reset s)"
  by (simp add: anchored_def reset_def)

lemma anchored_start_session: "now \<noteq> 0 \<Longrightarrow> anchored (start_session now s)"
  by (simp add: anchored_def start_session_def reset_def)

lemma anchored_start_operation:
  assumes "anchored s" and "ts \<noteq> 0"
    and "start_operation fmt ts ti tb c n m s = Inr (i, s')"
  shows "anchored s'"
proof -
  note v = start_operation_valid [OF assms(3)]
  define s1 where "s1 = (if start_time s = None then start_session ts s else s)"
  have s1: "anchored s1" "start_time s1 \<noteq> None"
    using assms(1,2) anchored_start_session [of ts s]
    by (auto simp: s1_def start_session_def)
  have s': "s' = s1\<lparr>active_operations := (active_operations s1)
      (i \<mapsto> \<lparr>act_category = c, act_operation_name = n, act_start_time = tb,
                         act_metadata = (case m of None \<Rightarrow> [] | Some x \<Rightarrow> x)\<rparr>)\<rparr>"
    using v(3) by (simp add: s1_def)
  from s1 show ?thesis
    unfolding s' anchored_def by (auto split: option.splits)
qed

lemma anchored_end_operation:
  assumes "anchored s"
  shows "anchored (snd (end_operation te i s))"
proof (cases "active_operations s i")
  case None
  then show ?thesis using assms by (simp add: end_operation_inactive)
next
  case (Some a)
  with assms obtain t0 where t0: "start_time s = Some t0" "t0 \<noteq> 0"
    by (cases "start_time s") (auto simp: anchored_def)
  define r where "r = \<lparr>op_category = act_category a,
           op_operation_name = act_operation_name a,
           op_start_time = act_start_time a,
           op_end_time = te,
           op_duration = te - act_start_time a,
           op_relative_start = act_start_time a - t0,
           op_relative_end = te - t0,
           op_metadata = act_metadata a\<rparr>"
  have shape: "start_time (snd (end_operation te i s)) = Some t0"
    "operations (snd (end_operation te i s)) = operations s @ [r]"
    using Some t0 by (auto simp: end_operation_def Let_def r_def split: option.splits)
  from assms t0 show ?thesis
    unfolding anchored_def shape by (auto simp: r_def)
qed

lemma anchored_step:
  assumes "anchored s" and "0 \<notin> set (readings c)"
  shows "anchored (step fmt c s)"
proof (cases c)
  case Reset
  then show ?thesis by (simp add: anchored_reset)
next
  case (StartSession now)
  with assms(2) show ?thesis by (simp add: anchored_start_session)
next
  case (StartOperation cat n m ts ti tb)
  with assms(2) have ts: "ts \<noteq> 0" by auto
  show ?thesis
  proof (cases "start_operation fmt ts ti tb cat n m s")
    case (Inl e)
    with StartOperation assms(1) show ?thesis by simp
  next
    case (Inr p)
    obtain i s' where p: "p = (i, s')" by (cases p)
    from anchored_start_operation [OF assms(1) ts Inr [unfolded p]]
    show ?thesis using StartOperation Inr p by simp
  qed
next
  case (EndOperation i te)
  with anchored_end_operation [OF assms(1)] show ?thesis by simp
qed

lemma anchored_run:
  "anchored s \<Longrightarrow> 0 \<notin> set (concat (map readings cs)) \<Longrightarrow> anchored (run fmt cs s)"
proof (induction cs arbitrary: s)
  case Nil
  then show ?case by simp
next
  case (Cons c cs)
  from Cons.prems(2) have "0 \<notin> set (readings c)" "0 \<notin> set (concat (map readings cs))"
    by auto
  with Cons.IH [OF anchored_step [OF Cons.prems(1)]] show ?case by simp
qed


section \<open>Orderings by start give one coverage\<close>

lemma spec_sweep_swap:
  assumes "fst x = fst a" "fst x \<le> snd x" "fst a \<le> snd a"
  shows "spec_sweep cur (x # a # r) = spec_sweep cur (a # x # r)"
  using assms by (auto simp: max.assoc max.left_commute max.commute)

lemma spec_sweep_move_front:
  assumes "\<forall>p\<in>set ps. fst p = fst a \<and> fst p \<le> snd p" and "fst a \<le> snd a"
  shows "spec_sweep cur (ps @ a # r) = spec_sweep cur (a # ps @ r)"
  using assms(1)
proof (induction ps arbitrary: cur)
  case Nil
  then show ?case by simp
next
  case (Cons x ps)
  then have x: "fst x = fst a" "fst x \<le> snd x"
    and ps: "\<forall>p\<in>set ps. fst p = fst a \<and> fst p \<le> snd p" by auto
  have "spec_sweep cur ((x # ps) @ a # r) = spec_sweep cur (x # a # ps @ r)"
    using Cons.IH [OF ps] by simp
  also have "\<dots> = spec_sweep cur (a # x # ps @ r)"
    by (rule spec_sweep_swap [OF x assms(2)])
  finally show ?case by simp
qed

lemma spec_sweep_perm:
  assumes "mset xs = mset ys" "sorted (map fst xs)" "sorted (map fst ys)"
    and "\<forall>iv\<in>set xs. fst iv \<le> snd iv"
  shows "spec_sweep cur xs = spec_sweep cur ys"
  using assms
proof (induction xs arbitrary: ys cur)
  case Nil
  then show ?case by simp
next
  case (Cons a xs)
  from Cons.prems(1) have sets: "set ys = set (a # xs)"
    by (metis mset_eq_setD)
  then have "a \<in> set ys" by simp
  then obtain ps r where ys: "ys = ps @ a # r"
    by (auto dest: split_list)
  have wf_a: "fst a \<le> snd a" using Cons.prems(4) by simp
  have ps: "\<forall>p\<in>set ps. fst p = fst a \<and> fst p \<le> snd p"
  proof
    fix p assume p: "p \<in> set ps"
    then have "p \<in> set (a # xs)" using sets ys by auto
    with Cons.prems(2,4) have lo: "fst a \<le> fst p" and wf: "fst p \<le> snd p" by auto
    from Cons.prems(3) p have "fst p \<le> fst a"
      by (auto simp: ys sorted_append)
    with lo wf show "fst p = fst a \<and> fst p \<le> snd p" by simp
  qed
  have m: "mset xs = mset (ps @ r)" using Cons.prems(1) by (simp add: ys)
  have s1: "sorted (map fst xs)" using Cons.prems(2) by simp
  have s2: "sorted (map fst (ps @ r))" using Cons.prems(3) by (auto simp: ys sorted_append)
  have wf: "\<forall>iv\<in>set xs. fst iv \<le> snd iv" using Cons.prems(4) by simp
  note IH = Cons.IH [OF m s1 s2 wf]
  have "spec_sweep cur ys = spec_sweep cur (a # ps @ r)"
    unfolding ys by (rule spec_sweep_move_front [OF ps wf_a])
  also have "\<dots> = spec_sweep cur (a # xs)"
    using IH by simp
  finally show ?case by simp
qed

lemma spec_sweep_gap:
  assumes "xs \<noteq> []" and "snd cur < fst (hd xs)"
  shows "spec_sweep cur xs = cur # spec_merged xs"
  using assms by (cases xs) auto

lemma spec_merged_perm:
  assumes "mset xs = mset ys" "sorted (map fst xs)" "sorted (map fst ys)"
    and "\<forall>iv\<in>set xs. fst iv \<le> snd iv"
  shows "spec_merged xs = spec_merged ys"
proof (cases xs)
  case Nil
  with assms(1) show ?thesis by simp
next
  case (Cons a rest)
  with assms(1) have ne: "xs \<noteq> []" "ys \<noteq> []" by auto
  define cur where "cur = (fst a - 1, fst a - 1)"
  have "hd ys \<in> set xs" using ne assms(1) by (metis hd_in_set mset_eq_setD)
  with assms(2) Cons have "fst a \<le> fst (hd ys)" by auto
  then have gy: "snd cur < fst (hd ys)" by (simp add: cur_def)
  have gx: "snd cur < fst (hd xs)" by (simp add: cur_def Cons)
  from spec_sweep_perm [OF assms, of cur]
    spec_sweep_gap [OF ne(1) gx] spec_sweep_gap [OF ne(2) gy]
  show ?thesis by simp
qed

lemma sorted_map_fst: "sorted (xs :: (rat \<times> rat) list) \<Longrightarrow> sorted (map fst xs)"
  by (induction xs) (auto simp: less_eq_prod_def)

lemma spec_coverage_perm:
  assumes "mset ys = mset ivs" "sorted (map fst ys)" "\<forall>iv\<in>set ys. fst iv \<le> snd iv"
  shows "spec_coverage ys = total_coverage ivs"
proof -
  have "mset ys = mset (sort ivs)" using assms(1) by simp
  moreover have "sorted (map fst (sort ivs))"
    by (rule sorted_map_fst) simp
  ultimately have "spec_merged ys = spec_merged (sort ivs)"
    using assms(2,3) by (intro spec_merged_perm) auto
  then show ?thesis by (simp add: total_coverage_spec spec_coverage_def)
qed

lemma parallel_state:
  "start_time (run (\<lambda>t. ''t'') parallel_calls init) = Some 1"
  "aggregates (run (\<lambda>t. ''t'') parallel_calls init) ''llm_calls''
     = Some \<lparr>total_time = 6, count_n = 3, min_time = Num 2, max_time = 2\<rparr>"
  by (simp_all add: parallel_calls_def eval_defs)


section \<open>Intervals that do not overlap\<close>










lemma consistent_total_time:
  assumes "consistent s" and "aggregates s c = Some agg"
  shows "total_time agg = sum_list (map (\<lambda>iv. snd iv - fst iv) (category_intervals s c))"
    and "count_n agg = length (filter (\<lambda>r. op_category r = c) (operations s))"
proof -
  from assms have c: "c \<in> CATEGORIES" by (auto simp: consistent_def)
  with assms have t: "total_time agg = sum_list (map op_duration (filter (\<lambda>r. op_category r = c) (operations s)))"
    and n: "count_n agg = length (filter (\<lambda>r. op_category r = c) (operations s))"
    by (auto simp: consistent_def)
  from assms(1) have "\<forall>r\<in>set (filter (\<lambda>r. op_category r = c) (operations s)).
      op_duration r = op_relative_end r - op_relative_start r"
    by (auto simp: consistent_def)
  then have "map op_duration (filter (\<lambda>r. op_category r = c) (operations s))
     = map (\<lambda>r. op_relative_end r - op_relative_start r) (filter (\<lambda>r. op_category r = c) (operations s))"
    by (intro map_cong) auto
  with t show "total_time agg = sum_list (map (\<lambda>iv. snd iv - fst iv) (category_intervals s c))"
    by (simp add: category_intervals_def comp_def)
  from n show "count_n agg = length (filter (\<lambda>r. op_category r = c) (operations s))" .
qed


lemma sequential_state:
  "start_time (run (\<lambda>t. ''t'') sequential_calls init) = Some 1"
  "category_intervals (run (\<lambda>t. ''t'') sequential_calls init) ''llm_calls'' = [(0, 1), (2, 3)]"
  by (simp_all add: sequential_calls_def eval_defs category_intervals_def)

lemma py_round_zero: "py_round 0 n = 0"
  by (simp add: py_round_def round_half_even_def to_double_zero)







section \<open>Stale handles\<close>



section \<open>Rejected categories\<close>




section \<open>Keys of the statistics objects\<close>

text \<open>
  C5. Every per-category statistics object in the result of \<open>get_summary\<close> has
  exactly the keys \<open>total_time\<close>, \<open>count\<close>, \<open>average_time\<close>, \<open>min_time\<close>,
  \<open>max_time\<close>, \<open>cumulative_percentage\<close> and \<open>timeline_percentage\<close>; there is no key
  \<open>percentage\<close>, and the subscript \<open>data['percentage']\<close> of the consumers raises
  \<open>KeyError\<close>.
\<close>

theorem summary_stats_keys:
  "get_summary now s = Inr sm \<Longrightarrow> categories sm c = Some st \<Longrightarrow>
     map fst st = [''total_time'', ''count'', ''average_time'', ''min_time'', ''max_time'',
                   ''cumulative_percentage'', ''timeline_percentage''] \<and>
     ''percentage'' \<notin> set (map fst st) \<and>
     getitem st ''percentage'' = Inl KeyError"
proof -
  assume a: "get_summary now s = Inr sm" "categories sm c = Some st"
  from get_summary_entries [OF a] have "category_stats s (session_duration sm) c = Inr st" by simp
  from category_stats_keys [OF this]
  have k: "map fst st = [''total_time'', ''count'', ''average_time'', ''min_time'', ''max_time'',
                   ''cumulative_percentage'', ''timeline_percentage'']" .
  then have n: "''percentage'' \<notin> set (map fst st)" by simp
  then have "map_of st ''percentage'' = None" by (simp add: map_of_eq_None_iff)
  with k n show ?thesis by (simp add: getitem_def)
qed


theorem summary_stats_keys_witness:
  "\<exists>sm st. get_summary 10 init = Inr sm \<and> categories sm ''llm_calls'' = Some st \<and>
     map fst st = [''total_time'', ''count'', ''average_time'', ''min_time'', ''max_time'',
                   ''cumulative_percentage'', ''timeline_percentage''] \<and>
     ''percentage'' \<notin> set (map fst st) \<and>
     getitem st ''percentage'' = Inl KeyError"
proof -
  from get_summary_empty_log [OF consistent_init, of 10]
  obtain sm where sm: "get_summary 10 init = Inr sm"
    and c: "categories sm ''llm_calls'' \<noteq> None"
    by (auto simp: init_def CATEGORIES_def CATEGORIES_list_def)
  from c obtain st where st: "categories sm ''llm_calls'' = Some st" by blast
  from summary_stats_keys [OF sm st] sm st show ?thesis
    by (intro exI [of _ sm] exI [of _ st]) simp
qed

section \<open>Counts and the completed log\<close>



section \<open>Summaries of an empty log\<close>

text \<open>
  C7. When no operation has completed, \<open>get_summary\<close> returns a summary (no
  \<open>ZeroDivisionError\<close>, no \<open>KeyError\<close>) with \<open>total_operations = 0\<close>, a session
  duration of 0 when \<open>start_time\<close> is unset, and for each of the six categories
  the all-zero statistics object, whose \<open>min_time\<close> and \<open>max_time\<close> are 0 and not
  the initial \<open>inf\<close>. So it is after \<open>reset\<close> and before any call.
\<close>

theorem get_summary_empty_log_zero:
  "(operations (run fmt calls init) = [] \<longrightarrow>
      (\<exists>sm. get_summary now (run fmt calls init) = Inr sm \<and>
         total_operations sm = 0 \<and>
         (start_time (run fmt calls init) = None \<longrightarrow> session_duration sm = 0) \<and>
         categories sm = (\<lambda>c. if c \<in> CATEGORIES then Some
             [(''total_time'', Num 0), (''count'', Num 0), (''average_time'', Num 0),
              (''min_time'', Num 0), (''max_time'', Num 0),
              (''cumulative_percentage'', Num 0), (''timeline_percentage'', Num 0)]
           else None))) \<and>
   get_summary now (reset s) =
     Inr \<lparr>session_duration = 0, total_operations = 0,
          categories = (\<lambda>c. if c \<in> CATEGORIES then Some
             [(''total_time'', Num 0), (''count'', Num 0), (''average_time'', Num 0),
              (''min_time'', Num 0), (''max_time'', Num 0),
              (''cumulative_percentage'', Num 0), (''timeline_percentage'', Num 0)]
           else None)\<rparr> \<and>
   get_summary now init = get_summary now (reset s)"
proof -
  have 1: "operations (run fmt calls init) = [] \<longrightarrow>
      (\<exists>sm. get_summary now (run fmt calls init) = Inr sm \<and>
         total_operations sm = 0 \<and>
         (start_time (run fmt calls init) = None \<longrightarrow> session_duration sm = 0) \<and>
         categories sm = (\<lambda>c. if c \<in> CATEGORIES then Some
             [(''total_time'', Num 0), (''count'', Num 0), (''average_time'', Num 0),
              (''min_time'', Num 0), (''max_time'', Num 0),
              (''cumulative_percentage'', Num 0), (''timeline_percentage'', Num 0)]
           else None))"
    using get_summary_empty_log [OF consistent_run [OF consistent_init], of fmt calls now]
    by blast
  from get_summary_empty_log [OF consistent_reset, of s now]
  obtain sm where sm: "get_summary now (reset s) = Inr sm" "total_operations sm = 0"
    "session_duration sm = 0"
    "categories sm = (\<lambda>c. if c \<in> CATEGORIES then Some
             [(''total_time'', Num 0), (''count'', Num 0), (''average_time'', Num 0),
              (''min_time'', Num 0), (''max_time'', Num 0),
              (''cumulative_percentage'', Num 0), (''timeline_percentage'', Num 0)]
           else None)"
    by (auto simp: reset_def)
  have "sm = \<lparr>session_duration = 0, total_operations = 0,
          categories = (\<lambda>c. if c \<in> CATEGORIES then Some
             [(''total_time'', Num 0), (''count'', Num 0), (''average_time'', Num 0),
              (''min_time'', Num 0), (''max_time'', Num 0),
              (''cumulative_percentage'', Num 0), (''timeline_percentage'', Num 0)]
           else None)\<rparr>"
    using sm(2-4) by simp
  with sm(1) have 2: "get_summary now (reset s) =
     Inr \<lparr>session_duration = 0, total_operations = 0,
          categories = (\<lambda>c. if c \<in> CATEGORIES then Some
             [(''total_time'', Num 0), (''count'', Num 0), (''average_time'', Num 0),
              (''min_time'', Num 0), (''max_time'', Num 0),
              (''cumulative_percentage'', Num 0), (''timeline_percentage'', Num 0)]
           else None)\<rparr>"
    by simp
  have 3: "get_summary now init = get_summary now (reset s)"
    by (simp add: init_def reset_def)
  from 1 2 3 show ?thesis by blast
qed

theorem get_summary_empty_log_zero_witness:
  "operations (run (\<lambda>t. ''t'')
      [StartSession 1, StartOperation ''llm_calls'' ''a'' None 1 1 2] init) = [] \<and>
   (\<exists>sm. get_summary 5 (run (\<lambda>t. ''t'')
      [StartSession 1, StartOperation ''llm_calls'' ''a'' None 1 1 2] init) = Inr sm \<and>
      total_operations sm = 0 \<and>
      categories sm ''llm_calls'' = Some
             [(''total_time'', Num 0), (''count'', Num 0), (''average_time'', Num 0),
              (''min_time'', Num 0), (''max_time'', Num 0),
              (''cumulative_percentage'', Num 0), (''timeline_percentage'', Num 0)]) \<and>
   start_time (run (\<lambda>t. ''t'') [Reset] init) = None \<and>
   (\<exists>sm. get_summary 5 (run (\<lambda>t. ''t'') [Reset] init) = Inr sm \<and>
      session_duration sm = 0)"
proof -
  have a: "operations (run (\<lambda>t. ''t'')
      [StartSession 1, StartOperation ''llm_calls'' ''a'' None 1 1 2] init) = []"
    by (simp add: eval_defs)
  have b: "operations (run (\<lambda>t. ''t'') [Reset] init) = []"
    "start_time (run (\<lambda>t. ''t'') [Reset] init) = None"
    by (simp_all add: eval_defs)
  have c: "''llm_calls'' \<in> CATEGORIES"
    by (simp add: CATEGORIES_def CATEGORIES_list_def)
  from a b c
    get_summary_empty_log_zero [of "\<lambda>t. ''t''"
      "[StartSession 1, StartOperation ''llm_calls'' ''a'' None 1 1 2]" 5 init]
    get_summary_empty_log_zero [of "\<lambda>t. ''t''" "[Reset]" 5 init]
  show ?thesis by auto
qed


section \<open>Timeline coverage stays within the session\<close>

text \<open>
  C2. Under a clock that never goes back (the readings of the calls, in order,
  followed by the reading of \<open>get_summary\<close>, are ascending), \<open>get_summary\<close>
  returns a summary in which the \<open>timeline_percentage\<close> of every category entry
  lies between 0 and 100. The witness is a run whose \<open>cumulative_percentage\<close>
  is 300.
\<close>

theorem timeline_percentage_bounded:
  assumes "sorted (concat (map readings calls) @ [now])"
  shows "\<exists>sm. get_summary now (run fmt calls init) = Inr sm \<and>
           (\<forall>c st. categories sm c = Some st \<longrightarrow>
              (\<exists>p. map_of st ''timeline_percentage'' = Some (Num p) \<and> 0 \<le> p \<and> p \<le> 100))"
proof -
  define s where "s = run fmt calls init"
  have cs: "consistent s" unfolding s_def by (rule consistent_run [OF consistent_init])
  have ts: "timed now s" unfolding s_def by (rule timed_at_summary [OF assms])
  from get_summary_consistent [OF cs] obtain sm where sm: "get_summary now s = Inr sm" by blast
  have "\<exists>p. map_of st ''timeline_percentage'' = Some (Num p) \<and> 0 \<le> p \<and> p \<le> 100"
    if st: "categories sm c = Some st" for c st
  proof -
    define d where "d = session_duration sm"
    from get_summary_entries [OF sm st] have cst: "category_stats s d c = Inr st"
      by (simp add: d_def)
    from category_stats_percentages [OF cst] obtain agg :: aggregate where
      agg: "if count_n agg > 0 \<and> d > 0 then
        map_of st ''cumulative_percentage'' =
          Some (Num (py_round (py_mul (to_double (total_time agg / d)) 100) 2)) \<and>
        map_of st ''timeline_percentage'' =
          Some (Num (if filter (\<lambda>r. op_category r = c) (operations s) = [] then 0
                     else py_round
                       (py_mul (to_double (total_coverage (category_intervals s c) / d)) 100) 2))
      else
        map_of st ''cumulative_percentage'' = Some (Num 0) \<and>
        map_of st ''timeline_percentage'' = Some (Num 0)"
      by blast
    show ?thesis
    proof (cases "count_n agg > 0 \<and> d > 0")
      case False
      with agg show ?thesis by auto
    next
      case True
      then have dpos: "d > 0" by simp
      from get_summary_result(1) [OF sm] dpos obtain t0 where
        t0: "start_time s = Some t0" "t0 \<noteq> 0" "d = now - t0"
        by (auto simp: d_def split: option.splits if_splits)
      from timed_intervals [OF ts t0(1,2)] t0(3)
      have "\<forall>iv\<in>set (category_intervals s c). 0 \<le> fst iv \<and> fst iv \<le> snd iv \<and> snd iv \<le> d"
        by simp
      from total_coverage_bound [OF this] dpos
      have b: "0 \<le> total_coverage (category_intervals s c)"
        "total_coverage (category_intervals s c) \<le> d" by simp_all
      from percentage_bounded [OF b dpos] agg True show ?thesis
        by (auto split: if_splits)
    qed
  qed
  with sm show ?thesis unfolding s_def by blast
qed

theorem timeline_percentage_bounded_witness:
  "sorted (concat (map readings parallel_calls) @ [3]) \<and>
   (\<exists>sm st. get_summary 3 (run (\<lambda>t. ''t'') parallel_calls init) = Inr sm \<and>
      categories sm ''llm_calls'' = Some st \<and>
      map_of st ''cumulative_percentage'' = Some (Num 300) \<and>
      (\<exists>p. map_of st ''timeline_percentage'' = Some (Num p) \<and> 0 \<le> p \<and> p \<le> 100))"
proof -
  have srt: "sorted (concat (map readings parallel_calls) @ [3])"
    by (simp add: parallel_calls_def)
  from timeline_percentage_bounded [OF srt, of "\<lambda>t. ''t''"]
  obtain sm where sm: "get_summary 3 (run (\<lambda>t. ''t'') parallel_calls init) = Inr sm"
    and b: "\<forall>c st. categories sm c = Some st \<longrightarrow>
              (\<exists>p. map_of st ''timeline_percentage'' = Some (Num p) \<and> 0 \<le> p \<and> p \<le> 100)"
    by blast
  have c: "''llm_calls'' \<in> CATEGORIES" by (simp add: CATEGORIES_def CATEGORIES_list_def)
  from get_summary_result(3) [OF sm c] obtain st where
    st: "categories sm ''llm_calls'' = Some st"
    and cs: "category_stats (run (\<lambda>t. ''t'') parallel_calls init) (session_duration sm) ''llm_calls'' = Inr st"
    by blast
  have d: "session_duration sm = 2"
    using get_summary_result(1) [OF sm] by (simp add: parallel_state)
  from category_stats_percentages [OF cs]
  have "map_of st ''cumulative_percentage'' =
      Some (Num (py_round (py_mul (to_double (6 / 2)) 100) 2))"
    by (simp add: parallel_state d)
  moreover have "to_double (6 / 2) = 3" using to_double_int [of 3] by simp
  moreover have "py_mul 3 100 = 300" using to_double_int [of 300] by (simp add: py_mul_def)
  moreover have "py_round 300 2 = 300"
    using to_double_int [of 300] by (simp add: py_round_def round_half_even_def)
  ultimately have "map_of st ''cumulative_percentage'' = Some (Num 300)"
    by simp
  with srt sm st b show ?thesis by blast
qed


section \<open>No records without a session\<close>

text \<open>
  C10. After every sequence of calls, an unset \<open>start_time\<close> means an empty log
  and an empty active map. With clock readings that are not \<open>0.0\<close> (the one
  float besides \<open>None\<close> that the test \<open>if self.start_time\<close> takes for unset),
  every completed record has its relative timestamps computed against the
  session start in force, so the fallback values are never used. A
  \<open>track_operation\<close> around a sequence of calls is the sequence between a
  \<open>start_operation\<close> and the \<open>end_operation\<close> of its id.
\<close>

theorem records_stamped_against_session_start:
  "(start_time (run fmt calls init) = None \<longrightarrow>
      operations (run fmt calls init) = [] \<and>
      active_operations (run fmt calls init) = Map.empty) \<and>
   (0 \<notin> set (concat (map readings calls)) \<longrightarrow>
      (\<forall>r\<in>set (operations (run fmt calls init)).
         \<exists>t0. start_time (run fmt calls init) = Some t0 \<and> t0 \<noteq> 0 \<and>
              op_relative_start r = op_start_time r - t0 \<and>
              op_relative_end r = op_end_time r - t0)) \<and>
   track_operation fmt ts ti tb c n m (\<lambda>i. run fmt (body i)) te s =
     (if c \<in> CATEGORIES
      then Inr (run fmt (StartOperation c n m ts ti tb # body (operation_id_of fmt c n ti)
                          @ [EndOperation (operation_id_of fmt c n ti) te]) s)
      else Inl ValueError)"
proof -
  have 1: "start_time (run fmt calls init) = None \<longrightarrow>
      operations (run fmt calls init) = [] \<and>
      active_operations (run fmt calls init) = Map.empty"
    using consistent_run [OF consistent_init, of fmt calls] by (simp add: consistent_def)
  have 2: "0 \<notin> set (concat (map readings calls)) \<longrightarrow>
      (\<forall>r\<in>set (operations (run fmt calls init)).
         \<exists>t0. start_time (run fmt calls init) = Some t0 \<and> t0 \<noteq> 0 \<and>
              op_relative_start r = op_start_time r - t0 \<and>
              op_relative_end r = op_end_time r - t0)"
  proof
    assume "0 \<notin> set (concat (map readings calls))"
    from anchored_run [OF anchored_init this, of fmt]
    show "\<forall>r\<in>set (operations (run fmt calls init)).
         \<exists>t0. start_time (run fmt calls init) = Some t0 \<and> t0 \<noteq> 0 \<and>
              op_relative_start r = op_start_time r - t0 \<and>
              op_relative_end r = op_end_time r - t0"
      by (cases "start_time (run fmt calls init)") (auto simp: anchored_def)
  qed
  have 3: "track_operation fmt ts ti tb c n m (\<lambda>i. run fmt (body i)) te s =
     (if c \<in> CATEGORIES
      then Inr (run fmt (StartOperation c n m ts ti tb # body (operation_id_of fmt c n ti)
                          @ [EndOperation (operation_id_of fmt c n ti) te]) s)
      else Inl ValueError)"
    by (simp add: track_operation_def start_operation_def Let_def run_append)
  from 1 2 3 show ?thesis by blast
qed


theorem records_stamped_against_session_start_witness:
  "start_time (run (\<lambda>t. ''t'') [Reset] init) = None \<and>
   operations (run (\<lambda>t. ''t'') [Reset] init) = [] \<and>
   0 \<notin> set (concat (map readings example_calls)) \<and>
   (\<exists>r t0. r \<in> set (operations (run (\<lambda>t. ''t'') example_calls init)) \<and>
      start_time (run (\<lambda>t. ''t'') example_calls init) = Some t0 \<and> t0 \<noteq> 0 \<and>
      op_relative_start r = op_start_time r - t0 \<and>
      op_relative_end r = op_end_time r - t0)"
proof -
  have a: "start_time (run (\<lambda>t. ''t'') [Reset] init) = None"
    by (simp add: reset_def)
  have b: "0 \<notin> set (concat (map readings example_calls))"
    by (simp add: example_calls_def)
  have "operations (run (\<lambda>t. ''t'') example_calls init) \<noteq> []"
    by (simp add: example_calls_def eval_defs)
  then obtain r where c: "r \<in> set (operations (run (\<lambda>t. ''t'') example_calls init))"
    by (cases "operations (run (\<lambda>t. ''t'') example_calls init)") auto
  note t1 = records_stamped_against_session_start [of "\<lambda>t. ''t''" "[Reset]", THEN conjunct1]
  note t2 = records_stamped_against_session_start [of "\<lambda>t. ''t''" example_calls,
      THEN conjunct2, THEN conjunct1]
  from t1 a have d: "operations (run (\<lambda>t. ''t'') [Reset] init) = []"
    by (rule mp [THEN conjunct1])
  from t2 b have "\<forall>r\<in>set (operations (run (\<lambda>t. ''t'') example_calls init)).
      \<exists>t0. start_time (run (\<lambda>t. ''t'') example_calls init) = Some t0 \<and> t0 \<noteq> 0 \<and>
           op_relative_start r = op_start_time r - t0 \<and>
           op_relative_end r = op_end_time r - t0" by (rule mp)
  with c obtain t0 where e:
    "start_time (run (\<lambda>t. ''t'') example_calls init) = Some t0 \<and> t0 \<noteq> 0 \<and>
     op_relative_start r = op_start_time r - t0 \<and>
     op_relative_end r = op_end_time r - t0" by blast
  from c e have "\<exists>r t0. r \<in> set (operations (run (\<lambda>t. ''t'') example_calls init)) \<and>
      start_time (run (\<lambda>t. ''t'') example_calls init) = Some t0 \<and> t0 \<noteq> 0 \<and>
      op_relative_start r = op_start_time r - t0 \<and>
      op_relative_end r = op_end_time r - t0" by blast
  with a b d show ?thesis by (intro conjI)
qed

section \<open>The timeline coverage formula\<close>

text \<open>
  C1. With \<open>C\<close> the coverage the specification describes (the pairs
  \<open>(relative_start, relative_end)\<close> of the category's records, in ascending
  order of start, swept once with touching intervals merged, the merged lengths
  summed), the \<open>timeline_percentage\<close> of \<open>get_summary\<close> is not
  \<open>round(100 * C / session_duration, 2)\<close> on every log. The source computes
  \<open>round(C / session_duration * 100, 2)\<close> on doubles: the quotient is rounded
  first, then its product with 100. For one operation from second 1 to second
  \<open>1 + 7/1024\<close> of a session asked for its summary at second \<open>625/32\<close>, the
  quotient is the double next to \<open>0.00035\<close>, its product with 100 is
  \<open>0.034999999999999996\<close> and the summary reports \<open>0.03\<close>, while
  \<open>100 * C / session_duration\<close> is \<open>0.035\<close> (exactly, and
  \<open>0.035000000000000003\<close> on doubles) and rounds to \<open>0.04\<close>.
\<close>

theorem timeline_coverage_formula_counterexample:
  "session_duration (projr (get_summary (1700000000 + 625 / 32)
      (run same_fmt rounding_calls init))) = 625 / 32 \<and>
   sort (category_intervals (run same_fmt rounding_calls init) ''llm_calls'')
     = [(1, 1 + 7 / 1024)] \<and>
   spec_coverage [(1, 1 + 7 / 1024)] = 7 / 1024 \<and>
   map_of (the (categories (projr (get_summary (1700000000 + 625 / 32)
       (run same_fmt rounding_calls init))) ''llm_calls'')) ''timeline_percentage''
     = Some (Num (1080863910568919 / 2 ^ 55)) \<and>
   py_round (100 * (7 / 1024) / (625 / 32)) 2 = 5764607523034235 / 2 ^ 57 \<and>
   py_round (to_double (py_mul 100 (7 / 1024) / (625 / 32))) 2 = 5764607523034235 / 2 ^ 57 \<and>
   to_double (3 / 100) = 1080863910568919 / 2 ^ 55 \<and>
   to_double (4 / 100) = 5764607523034235 / 2 ^ 57 \<and>
   (1080863910568919 / 2 ^ 55 :: rat) \<noteq> 5764607523034235 / 2 ^ 57"
proof -
  define s where "s = run same_fmt rounding_calls init"
  have st: "start_time s = Some 1700000000"
    by (simp add: s_def rounding_calls_def same_fmt_def eval_defs)
  have iv: "category_intervals s ''llm_calls'' = [(1, 1 + 7 / 1024)]"
    by (simp add: s_def rounding_calls_def same_fmt_def eval_defs category_intervals_def)
  have cs: "consistent s" unfolding s_def by (rule consistent_run [OF consistent_init])
  from get_summary_consistent [OF cs] obtain sm where
    sm: "get_summary (1700000000 + 625 / 32) s = Inr sm" by blast
  have d: "session_duration sm = 625 / 32"
    using get_summary_result(1) [OF sm] by (simp add: st)
  have c: "''llm_calls'' \<in> CATEGORIES" by (simp add: CATEGORIES_def CATEGORIES_list_def)
  from get_summary_result(3) [OF sm c] obtain stats where
    stats: "categories sm ''llm_calls'' = Some stats"
    and cst: "category_stats s (625 / 32) ''llm_calls'' = Inr stats"
    by (auto simp: d)
  have ne: "filter (\<lambda>r. op_category r = ''llm_calls'') (operations s) \<noteq> []"
    using iv by (auto simp: category_intervals_def)
  from category_stats_percentages [OF cst] obtain agg :: aggregate where
    a: "aggregates s ''llm_calls'' = Some agg" and
    agg: "if count_n agg > 0 \<and> (625 / 32 :: rat) > 0 then
        map_of stats ''cumulative_percentage'' =
          Some (Num (py_round (py_mul (to_double (total_time agg / (625 / 32))) 100) 2)) \<and>
        map_of stats ''timeline_percentage'' =
          Some (Num (if filter (\<lambda>r. op_category r = ''llm_calls'') (operations s) = [] then 0
                     else py_round
                       (py_mul (to_double (total_coverage (category_intervals s ''llm_calls'') / (625 / 32))) 100) 2))
      else
        map_of stats ''cumulative_percentage'' = Some (Num 0) \<and>
        map_of stats ''timeline_percentage'' = Some (Num 0)"
    by blast
  from consistent_total_time(2) [OF cs a] ne have cnt: "count_n agg > 0" by simp
  have cov: "total_coverage [(1, 1 + 7 / 1024)] = 7 / 1024"
    by (simp add: total_coverage_spec spec_coverage_def)
  have sc: "spec_coverage [(1, 1 + 7 / 1024)] = 7 / 1024"
    by (simp add: spec_coverage_def)
  have v1: "to_double (7 / 20000) = 6456360425798343 / 2 ^ 64"
    by (subst to_double_eval [where k = "- 12"])
      (simp_all add: round_half_even_def Let_def power_int_minus floor_numeral_divide)
  have v2: "to_double (6456360425798343 / 2 ^ 64 * 100) = 5044031582654955 / 2 ^ 57"
    by (subst to_double_eval [where k = "- 5"])
      (simp_all add: round_half_even_def Let_def power_int_minus floor_numeral_divide)
  have v3: "to_double (3 / 100) = 1080863910568919 / 2 ^ 55"
    by (subst to_double_eval [where k = "- 6"])
      (simp_all add: round_half_even_def Let_def power_int_minus floor_numeral_divide)
  have v4: "to_double (4 / 100) = 5764607523034235 / 2 ^ 57"
    by (subst to_double_eval [where k = "- 5"])
      (simp_all add: round_half_even_def Let_def power_int_minus floor_numeral_divide)
  have v4n: "to_double (1 / 25) = 5764607523034235 / 2 ^ 57"
    using v4 by simp
  have v5: "py_round (5044031582654955 / 2 ^ 57) 2 = 1080863910568919 / 2 ^ 55"
    by (simp add: py_round_def round_half_even_def Let_def v3 floor_numeral_divide)
  have v6: "to_double (175 / 256) = 175 / 256"
    by (subst to_double_eval [where k = "- 1"])
      (simp_all add: round_half_even_def Let_def power_int_minus floor_numeral_divide)
  have v7: "to_double (7 / 200) = 5044031582654956 / 2 ^ 57"
    by (subst to_double_eval [where k = "- 5"])
      (simp_all add: round_half_even_def Let_def power_int_minus floor_numeral_divide)
  have q: "(7 / 1024 :: rat) / (625 / 32) = 7 / 20000" by simp
  have val: "py_round (py_mul (to_double
      (total_coverage (category_intervals s ''llm_calls'') / (625 / 32))) 100) 2
      = 1080863910568919 / 2 ^ 55"
    by (simp only: iv cov q v1 py_mul_def v2 v5)
  have pos: "(625 / 32 :: rat) > 0" by simp
  have nef: "(filter (\<lambda>r. op_category r = ''llm_calls'') (operations s) = []) = False"
    using ne by simp
  have "map_of stats ''timeline_percentage'' =
      Some (Num (py_round (py_mul (to_double
        (total_coverage (category_intervals s ''llm_calls'') / (625 / 32))) 100) 2))"
    using agg by (simp only: cnt pos nef simp_thms if_True if_False)
  then have code: "map_of stats ''timeline_percentage'' = Some (Num (1080863910568919 / 2 ^ 55))"
    by (simp only: val)
  have e1: "py_round (100 * (7 / 1024) / (625 / 32)) 2 = 5764607523034235 / 2 ^ 57"
    by (simp add: py_round_def round_half_even_def Let_def floor_numeral_divide v4n)
  have v8: "py_round (5044031582654956 / 2 ^ 57) 2 = 5764607523034235 / 2 ^ 57"
    by (simp add: py_round_def round_half_even_def Let_def v4n floor_numeral_divide)
  have a1: "(100 :: rat) * (7 / 1024) = 175 / 256" by simp
  have a2: "(175 / 256 :: rat) / (625 / 32) = 7 / 200" by simp
  have e2: "py_round (to_double (py_mul 100 (7 / 1024) / (625 / 32))) 2
      = 5764607523034235 / 2 ^ 57"
    by (simp only: py_mul_def a1 v6 a2 v7 v8)
  have ne2: "(1080863910568919 / 2 ^ 55 :: rat) \<noteq> 5764607523034235 / 2 ^ 57" by simp
  have s1: "session_duration (projr (get_summary (1700000000 + 625 / 32) s)) = 625 / 32"
    using sm d by simp
  have s2: "sort (category_intervals s ''llm_calls'') = [(1, 1 + 7 / 1024)]"
    by (simp add: iv)
  have s3: "map_of (the (categories (projr (get_summary (1700000000 + 625 / 32) s))
       ''llm_calls'')) ''timeline_percentage'' = Some (Num (1080863910568919 / 2 ^ 55))"
    using sm stats code by simp
  from s1 s2 sc s3 e1 e2 v3 v4 ne2 show ?thesis
    unfolding s_def by (intro conjI)
qed

text \<open>
  C1, as amended. For a category of the fixed set and a positive session
  duration, the \<open>timeline_percentage\<close> of \<open>get_summary\<close> is
  \<open>round(C / session_duration * 100, 2)\<close> evaluated on doubles in that order,
  with \<open>C\<close> the coverage of the specification. The ordering \<open>ys\<close> is the tuple
  order of the source, or any ordering by start when every pair has its start
  before its end. The intervals \<open>[0,5]\<close> and \<open>[5,10]\<close> merge into \<open>[0,10]\<close>;
  \<open>[0,5]\<close> and \<open>[6,10]\<close> stay apart and cover 9.
\<close>

theorem timeline_coverage_formula:
  "(\<exists>sm. get_summary now (run fmt calls init) = Inr sm \<and>
      (session_duration sm > 0 \<and> c \<in> CATEGORIES \<and>
       mset ys = mset (category_intervals (run fmt calls init) c) \<and> sorted (map fst ys) \<and>
       (ys = sort (category_intervals (run fmt calls init) c) \<or>
        (\<forall>iv\<in>set ys. fst iv \<le> snd iv))
       \<longrightarrow> (\<exists>st. categories sm c = Some st \<and>
              map_of st ''timeline_percentage'' =
                Some (Num (py_round
                  (py_mul (to_double (spec_coverage ys / session_duration sm)) 100) 2))))) \<and>
   spec_merged [(0, 5), (5, 10)] = [(0, 10)] \<and>
   spec_coverage [(0, 5), (5, 10)] = 10 \<and>
   total_coverage [(0, 5), (5, 10)] = 10 \<and>
   spec_merged [(0, 5), (6, 10)] = [(0, 5), (6, 10)] \<and>
   spec_coverage [(0, 5), (6, 10)] = 9 \<and>
   total_coverage [(0, 5), (6, 10)] = 9"
proof -
  from get_summary_consistent [OF consistent_run [OF consistent_init]]
  obtain sm where sm: "get_summary now (run fmt calls init) = Inr sm"
    by blast
  have main: "\<exists>st. categories sm c = Some st \<and>
           map_of st ''timeline_percentage'' =
             Some (Num (py_round
               (py_mul (to_double (spec_coverage ys / session_duration sm)) 100) 2))"
    if dpos: "session_duration sm > 0"
      and c: "c \<in> CATEGORIES"
      and ms: "mset ys = mset (category_intervals (run fmt calls init) c)"
      and srt: "sorted (map fst ys)"
      and ord: "ys = sort (category_intervals (run fmt calls init) c) \<or> (\<forall>iv\<in>set ys. fst iv \<le> snd iv)"
  proof -
    define s where "s = run fmt calls init"
    define d where "d = session_duration sm"
    have cs: "consistent s" unfolding s_def by (rule consistent_run [OF consistent_init])
    from get_summary_result(3) [OF sm c] obtain st where
      st: "categories sm c = Some st" and cst: "category_stats s d c = Inr st"
      by (auto simp: s_def d_def)
    from category_stats_percentages [OF cst] obtain agg :: aggregate where
      a: "aggregates s c = Some agg" and
      agg: "if count_n agg > 0 \<and> d > 0 then
        map_of st ''cumulative_percentage'' =
          Some (Num (py_round (py_mul (to_double (total_time agg / d)) 100) 2)) \<and>
        map_of st ''timeline_percentage'' =
          Some (Num (if filter (\<lambda>r. op_category r = c) (operations s) = [] then 0
                     else py_round
                       (py_mul (to_double (total_coverage (category_intervals s c) / d)) 100) 2))
      else
        map_of st ''cumulative_percentage'' = Some (Num 0) \<and>
        map_of st ''timeline_percentage'' = Some (Num 0)"
      by blast
    have cov: "spec_coverage ys = total_coverage (category_intervals s c)"
      using ord
    proof
      assume "ys = sort (category_intervals (run fmt calls init) c)"
      then show ?thesis by (simp add: total_coverage_spec s_def)
    next
      assume "\<forall>iv\<in>set ys. fst iv \<le> snd iv"
      from spec_coverage_perm [OF ms srt this] show ?thesis by (simp add: s_def)
    qed
    have "map_of st ''timeline_percentage'' =
        Some (Num (py_round (py_mul (to_double (spec_coverage ys / d)) 100) 2))"
    proof (cases "count_n agg > 0")
      case True
      with consistent_total_time(2) [OF cs a]
      have "filter (\<lambda>r. op_category r = c) (operations s) \<noteq> []" by auto
      with agg True dpos cov show ?thesis by (simp add: d_def)
    next
      case False
      with consistent_total_time(2) [OF cs a]
      have "category_intervals s c = []" by (simp add: category_intervals_def)
      with ms have "ys = []" by (simp add: s_def)
      then have "spec_coverage ys = 0" by (simp add: spec_coverage_def)
      with agg False show ?thesis
        by (simp add: py_round_zero py_mul_def to_double_zero)
    qed
    with st show ?thesis by (simp add: d_def)
  qed
  have e1: "spec_merged [(0, 5), (5, 10)] = [(0, 10)]" by simp
  have e2: "spec_merged [(0, 5), (6, 10)] = [(0, 5), (6, 10)]" by simp
  have e3: "spec_coverage [(0, 5), (5, 10)] = 10" "spec_coverage [(0, 5), (6, 10)] = 9"
    by (simp_all add: spec_coverage_def)
  have e4: "total_coverage [(0, 5), (5, 10)] = 10" "total_coverage [(0, 5), (6, 10)] = 9"
    by (simp_all add: total_coverage_spec spec_coverage_def)
  from sm main have "\<exists>sm. get_summary now (run fmt calls init) = Inr sm \<and>
      (session_duration sm > 0 \<and> c \<in> CATEGORIES \<and>
       mset ys = mset (category_intervals (run fmt calls init) c) \<and> sorted (map fst ys) \<and>
       (ys = sort (category_intervals (run fmt calls init) c) \<or>
        (\<forall>iv\<in>set ys. fst iv \<le> snd iv))
       \<longrightarrow> (\<exists>st. categories sm c = Some st \<and>
              map_of st ''timeline_percentage'' =
                Some (Num (py_round
                  (py_mul (to_double (spec_coverage ys / session_duration sm)) 100) 2))))"
    by blast
  with e1 e2 e3 e4 show ?thesis by (intro conjI)
qed

theorem timeline_coverage_formula_witness:
  "\<exists>sm. get_summary 5 (run (\<lambda>t. ''t'') sequential_calls init) = Inr sm \<and>
     session_duration sm > 0 \<and> ''llm_calls'' \<in> CATEGORIES \<and>
     mset [(0, 1), (2, 3)] = mset (category_intervals (run (\<lambda>t. ''t'') sequential_calls init) ''llm_calls'') \<and>
     sorted (map fst [(0 :: rat, 1 :: rat), (2, 3)]) \<and>
     fst (0 :: rat, 1 :: rat) \<le> snd (0 :: rat, 1 :: rat) \<and>
     fst (2 :: rat, 3 :: rat) \<le> snd (2 :: rat, 3 :: rat) \<and>
     (\<exists>st. categories sm ''llm_calls'' = Some st \<and>
        map_of st ''timeline_percentage'' = Some (Num 50))"
proof -
  from timeline_coverage_formula [of 5 "\<lambda>t. ''t''" sequential_calls "''llm_calls''" "[(0, 1), (2, 3)]",
      THEN conjunct1]
  obtain sm where sm: "get_summary 5 (run (\<lambda>t. ''t'') sequential_calls init) = Inr sm"
    and imp: "session_duration sm > 0 \<and> ''llm_calls'' \<in> CATEGORIES \<and>
       mset [(0, 1), (2, 3)] = mset (category_intervals (run (\<lambda>t. ''t'') sequential_calls init) ''llm_calls'') \<and>
       sorted (map fst [(0 :: rat, 1 :: rat), (2, 3)]) \<and>
       ([(0, 1), (2, 3)] = sort (category_intervals (run (\<lambda>t. ''t'') sequential_calls init) ''llm_calls'') \<or>
        (\<forall>iv\<in>set [(0 :: rat, 1 :: rat), (2, 3)]. fst iv \<le> snd iv))
       \<longrightarrow> (\<exists>st. categories sm ''llm_calls'' = Some st \<and>
              map_of st ''timeline_percentage'' =
                Some (Num (py_round
                  (py_mul (to_double (spec_coverage [(0, 1), (2, 3)] / session_duration sm)) 100) 2)))"
    by blast
  have d: "session_duration sm = 4"
    using get_summary_result(1) [OF sm] by (simp add: sequential_state)
  have c: "''llm_calls'' \<in> CATEGORIES" by (simp add: CATEGORIES_def CATEGORIES_list_def)
  have m: "mset [(0, 1), (2, 3)] = mset (category_intervals (run (\<lambda>t. ''t'') sequential_calls init) ''llm_calls'')"
    by (simp add: sequential_state)
  have s: "sorted (map fst [(0 :: rat, 1 :: rat), (2, 3)])" by simp
  have w: "\<forall>iv\<in>set [(0 :: rat, 1 :: rat), (2, 3)]. fst iv \<le> snd iv" by simp
  have h: "to_double (1 / 2) = 1 / 2"
    by (subst to_double_eval [where k = "- 1"])
      (simp_all add: round_half_even_def Let_def power_int_minus)
  have f: "to_double 50 = 50" using to_double_int [of 50] by simp
  have v: "py_round (py_mul (to_double (spec_coverage [(0, 1), (2, 3)] / 4)) 100) 2 = 50"
    by (simp add: spec_coverage_def h py_mul_def f py_round_def round_half_even_def)
  from imp d c m s w
  have "\<exists>st. categories sm ''llm_calls'' = Some st \<and>
        map_of st ''timeline_percentage'' =
          Some (Num (py_round
            (py_mul (to_double (spec_coverage [(0, 1), (2, 3)] / session_duration sm)) 100) 2))"
    by simp
  with v d have "\<exists>st. categories sm ''llm_calls'' = Some st \<and>
        map_of st ''timeline_percentage'' = Some (Num 50)" by simp
  with sm d c m s w show ?thesis by (intro exI [of _ sm]) simp
qed

section \<open>Cumulative and timeline percentage without overlap\<close>




section \<open>Writes outside the lock\<close>

text \<open>
  C9. \<open>reset\<close> and \<open>end_operation\<close> write the session state only inside their
  \<open>with self._lock\<close> block, and so does \<open>start_operation\<close> once a session is
  started. \<open>start_session\<close> does not: its assignment of \<open>self.start_time\<close> comes
  after the lock is released, and with it the first \<open>start_operation\<close> of a
  session. Under the schedule given, one thread in \<open>start_session\<close> makes that
  assignment while a second thread is in the middle of \<open>reset\<close>, holding the lock.
\<close>

theorem start_session_writes_outside_lock:
  "writes_under_lock False reset_events \<and>
   writes_under_lock False (end_operation_events operation_id s) \<and>
   writes_under_lock False (start_operation_events category (start_session now s)) \<and>
   \<not> writes_under_lock False start_session_events \<and>
   \<not> writes_under_lock False (start_operation_events ''llm_calls'' init) \<and>
   write_beside_holder [0, 0, 0, 0, 0, 0, 1, 1, 0] None [start_session_events, reset_events]"
proof -
  have 1: "writes_under_lock False reset_events"
    by (simp add: reset_events_def)
  have 2: "writes_under_lock False (end_operation_events operation_id s)"
    by (simp add: end_operation_events_def split: option.splits)
  have 3: "writes_under_lock False (start_operation_events category (start_session now s))"
    by (simp add: start_operation_events_def start_session_def)
  have 4: "\<not> writes_under_lock False start_session_events"
    by (simp add: start_session_events_def reset_events_def)
  have 5: "\<not> writes_under_lock False (start_operation_events ''llm_calls'' init)"
    by (simp add: start_operation_events_def start_session_events_def reset_events_def
        init_def CATEGORIES_def CATEGORIES_list_def)
  have 6: "write_beside_holder [0, 0, 0, 0, 0, 0, 1, 1, 0] None
      [start_session_events, reset_events]"
    by (simp add: start_session_events_def reset_events_def)
  from 1 2 3 4 5 6 show ?thesis by (intro conjI)
qed

end
